theory Spec2Isabelle
  imports Main "HOL-Library.Sublist"
begin

section \<open>Strings\<close>

text \<open>
  Python's \<open>str\<close> is modelled as \<open>string\<close> (a list of \<open>char\<close>): every character is
  a code point below 256. \<open>py_isspace\<close> is the set of such code points that Python's
  \<open>str.isspace\<close>, \<open>str.strip\<close> and the regular expression class \<open>\s\<close> accept.
\<close>

definition py_isspace :: "char \<Rightarrow> bool" where
  "py_isspace c =
     (let n = (of_char c :: nat)
      in (9 \<le> n \<and> n \<le> 13) \<or> (28 \<le> n \<and> n \<le> 32) \<or> n = 133 \<or> n = 160)"

definition py_strip :: "string \<Rightarrow> string" where
  "py_strip s = rev (dropWhile py_isspace (rev (dropWhile py_isspace s)))"

text \<open>\<open>s.split(sep)\<close> for a one-character separator: the empty string gives one empty field.\<close>

fun py_split :: "char \<Rightarrow> string \<Rightarrow> string list" where
  "py_split sep [] = [[]]"
| "py_split sep (c # cs) =
     (if c = sep then [] # py_split sep cs
      else (case py_split sep cs of
              [] \<Rightarrow> [[c]]
            | x # xs \<Rightarrow> (c # x) # xs))"

text \<open>
  \<open>re_search P s\<close> is the start of the leftmost match of a pattern in \<open>s\<close>, the pattern
  given as the predicate \<open>P\<close> on the text from a position on; \<open>str_find sub s pos\<close> is
  \<open>s.find(sub, pos)\<close>, with \<open>None\<close> for \<open>-1\<close>.
\<close>

fun re_search :: "(string \<Rightarrow> bool) \<Rightarrow> string \<Rightarrow> nat option" where
  "re_search P [] = (if P [] then Some 0 else None)"
| "re_search P (c # cs) =
     (if P (c # cs) then Some 0 else map_option Suc (re_search P cs))"

definition str_find :: "string \<Rightarrow> string \<Rightarrow> nat \<Rightarrow> nat option" where
  "str_find sub s pos = map_option (\<lambda>i. pos + i) (re_search (prefix sub) (drop pos s))"

text \<open>The decimal digit of a number below ten: the code points from 48 on.\<close>

definition digit_char :: "nat \<Rightarrow> char" where
  "digit_char n = char_of (48 + n)"

text \<open>\<open>str(n)\<close> for a natural number.\<close>

fun str_of_nat :: "nat \<Rightarrow> string" where
  "str_of_nat n = (if n < 10 then [digit_char n] else str_of_nat (n div 10) @ [digit_char (n mod 10)])"

definition ascii_lower :: "char \<Rightarrow> char" where
  "ascii_lower c =
     (let n = (of_char c :: nat) in if 65 \<le> n \<and> n \<le> 90 then char_of (n + 32) else c)"

section \<open>Events (core/events.py)\<close>

text \<open>A JSON value; a Python \<open>dict\<close> is an object, its keys in insertion order.\<close>

datatype json =
    JNull
  | JBool bool
  | JNum int
  | JStr string
  | JArr "json list"
  | JObj "(string \<times> json) list"

datatype FormQuestion = FormQuestion
  (fq_name: string) (fq_question: string) (fq_input_type: string) (fq_options: "string list")

datatype event =
    TextChunkEvent string
  | ToolStartEvent string string "(string \<times> json) list"
  | ToolDoneEvent string string string "string option" "(string \<times> json) list"
  | DoneEvent
  | ErrorEvent string
  | SessionIdEvent string
  | InteractionRequestEvent string string string "string list"
  | InteractionFormEvent string "FormQuestion list" bool

text \<open>
  The fields, in the order of the class definitions:
  \<open>ToolStartEvent tool_call_id tool input\<close>,
  \<open>ToolDoneEvent tool_call_id tool output error input\<close>,
  \<open>InteractionRequestEvent request_id question input_type options\<close>,
  \<open>InteractionFormEvent request_id questions paginated\<close>.
\<close>

section \<open>The interaction registry (tools/interaction.py)\<close>

text \<open>
  \<open>_pending_async\<close> maps a request id to its \<open>asyncio.Queue(maxsize=1)\<close>; a queue is
  the list of the values it holds (values as they come off the wire, JSON). Every queue
  of the program is created by \<open>register_interaction\<close> under a fresh \<open>uuid4\<close>, so a
  queue is identified by its request id. \<open>uuid4\<close> is a supply of distinct strings: the
  n-th draw is \<open>uuid4 n\<close>.
\<close>

type_synonym queue = "json list"

record world =
  uuid_counter :: nat
  pending_async :: "(string \<times> queue) list"

definition uuid4 :: "nat \<Rightarrow> string" where
  "uuid4 n = ''uuid-'' @ str_of_nat n"

text \<open>A \<open>dict\<close> with its keys in insertion order: \<open>d[k] = v\<close> and \<open>d.pop(k, None)\<close>.\<close>

fun dict_set :: "'k \<Rightarrow> 'v \<Rightarrow> ('k \<times> 'v) list \<Rightarrow> ('k \<times> 'v) list" where
  "dict_set k v [] = [(k, v)]"
| "dict_set k v ((k', v') # kvs) =
     (if k = k' then (k, v) # kvs else (k', v') # dict_set k v kvs)"

fun dict_pop :: "'k \<Rightarrow> ('k \<times> 'v) list \<Rightarrow> ('k \<times> 'v) list" where
  "dict_pop k [] = []"
| "dict_pop k ((k', v') # kvs) = (if k = k' then kvs else (k', v') # dict_pop k kvs)"

definition register_interaction :: "string \<Rightarrow> world \<Rightarrow> world" where
  "register_interaction request_id w =
     w\<lparr>pending_async := dict_set request_id [] (pending_async w)\<rparr>"

text \<open>The exceptions of the model; \<open>ProviderError\<close> carries the text of the exception.\<close>

datatype error =
    QueueFull
  | AttributeError
  | TypeError
  | ValidationError
  | KeyError
  | ProviderError string

text \<open>\<open>q.put_nowait(value)\<close> on a queue of \<open>maxsize=1\<close> raises \<open>QueueFull\<close> when it holds a value.\<close>

definition put_nowait :: "queue \<Rightarrow> json \<Rightarrow> error + queue" where
  "put_nowait q v = (if length q \<ge> 1 then Inl QueueFull else Inr (q @ [v]))"

text \<open>
  \<open>resolve_interaction(request_id, value)\<close>, the request id a string as annotated.
  \<open>Inl\<close> is the exception that leaves the function; the queue is updated in place.
\<close>

definition resolve_interaction :: "string \<Rightarrow> json \<Rightarrow> world \<Rightarrow> error + world" where
  "resolve_interaction request_id v w =
     (case map_of (pending_async w) request_id of
        None \<Rightarrow> Inr w
      | Some q \<Rightarrow>
          (case put_nowait q v of
             Inl e \<Rightarrow> Inl e
           | Inr q' \<Rightarrow> Inr (w\<lparr>pending_async := dict_set request_id q' (pending_async w)\<rparr>)))"

section \<open>The tag parser (core/interaction_parser.py)\<close>

subsection \<open>The regular expressions\<close>

text \<open>
  \<open>attr_group key s\<close> matches \<open>\s+key="([^"]*)"\<close> at the head of \<open>s\<close> and returns the
  group with the text after the match. Each piece of the pattern matches in one way only
  (the white space run must be followed by the key, the value ends at the next quote).
\<close>

definition attr_group :: "string \<Rightarrow> string \<Rightarrow> (string \<times> string) option" where
  "attr_group key s =
     (let ws = takeWhile py_isspace s; r = dropWhile py_isspace s
      in if ws = [] then None
         else if \<not> prefix (key @ ''=\"'') r then None
         else (let r2 = drop (length key + 2) r
               in (case dropWhile (\<lambda>c. c \<noteq> CHR ''\"'') r2 of
                     [] \<Rightarrow> None
                   | _ # r3 \<Rightarrow> Some (takeWhile (\<lambda>c. c \<noteq> CHR ''\"'') r2, r3))))"

text \<open>
  An optional group \<open>(?:...)?\<close> followed by the rest \<open>k\<close> of the pattern: the matcher
  first tries the group, and leaves it out (the group is then \<open>None\<close>) when the group or
  the rest after it fails.
\<close>

definition opt_group ::
  "string \<Rightarrow> string \<Rightarrow> (string option \<Rightarrow> string \<Rightarrow> 'a option) \<Rightarrow> 'a option" where
  "opt_group key s k =
     (case attr_group key s of
        None \<Rightarrow> k None s
      | Some (v, r) \<Rightarrow> (case k (Some v) r of Some x \<Rightarrow> Some x | None \<Rightarrow> k None s))"

text \<open>
  The tail \<open>[^>]*>(?P<question>.*?)</ask>\<close> (DOTALL): up to the first \<open>>\<close>, then the
  shortest text up to a \<open></ask>\<close>. It returns the question and the text after the match.
\<close>

definition ask_tail :: "string \<Rightarrow> (string \<times> string) option" where
  "ask_tail s =
     (case dropWhile (\<lambda>c. c \<noteq> CHR ''>'') s of
        [] \<Rightarrow> None
      | _ # r \<Rightarrow>
          (case re_search (prefix ''</ask>'') r of
             None \<Rightarrow> None
           | Some i \<Rightarrow> Some (take i r, drop (i + 6) r)))"

text \<open>\<open><ask(?!-)\<close> at the head of \<open>s\<close>; returns the text after \<open><ask\<close>.\<close>

definition ask_head :: "string \<Rightarrow> string option" where
  "ask_head s =
     (if prefix ''<ask'' s \<and> \<not> prefix ''-'' (drop 4 s) then Some (drop 4 s) else None)"

text \<open>\<open>_ASK_RE.match(s)\<close>: the groups \<open>atype\<close>, \<open>options\<close>, \<open>question\<close> and the text after the match.\<close>

definition ASK_RE_match ::
  "string \<Rightarrow> ((string option \<times> string option \<times> string) \<times> string) option" where
  "ASK_RE_match s =
     (case ask_head s of
        None \<Rightarrow> None
      | Some s0 \<Rightarrow>
          opt_group ''type'' s0 (\<lambda>atype s1.
          opt_group ''options'' s1 (\<lambda>opts s2.
            map_option (\<lambda>(q, rest). ((atype, opts, q), rest)) (ask_tail s2))))"

text \<open>\<open>_FORM_CHILD_RE.match(s)\<close>: the groups \<open>name\<close>, \<open>atype\<close>, \<open>options\<close>, \<open>question\<close>.\<close>

definition FORM_CHILD_RE_match ::
  "string \<Rightarrow> ((string option \<times> string option \<times> string option \<times> string) \<times> string) option" where
  "FORM_CHILD_RE_match s =
     (case ask_head s of
        None \<Rightarrow> None
      | Some s0 \<Rightarrow>
          opt_group ''name'' s0 (\<lambda>name s1.
          opt_group ''type'' s1 (\<lambda>atype s2.
          opt_group ''options'' s2 (\<lambda>opts s3.
            map_option (\<lambda>(q, rest). ((name, atype, opts, q), rest)) (ask_tail s3)))))"

definition VALID_TYPES :: "string list" where
  "VALID_TYPES = [''text'', ''confirmation'', ''single_choice'', ''multi_choice'']"

definition POSSIBLE_PREFIXES :: "string list" where
  "POSSIBLE_PREFIXES =
     [''<ask-form'', ''<ask-for'', ''<ask-fo'', ''<ask-f'', ''<ask-'',
      ''<ask'', ''<as'', ''<a'', ''<'']"

text \<open>\<open>_BARE_ASK_START\<close> is \<open><ask(?=[>\s])\<close> and \<open>_FORM_ASK_START\<close> is \<open><ask-form(?=[>\s/])\<close>.\<close>

definition BARE_ASK_START :: "string \<Rightarrow> bool" where
  "BARE_ASK_START s =
     (prefix ''<ask'' s \<and>
      (case drop 4 s of [] \<Rightarrow> False | c # _ \<Rightarrow> c = CHR ''>'' \<or> py_isspace c))"

definition FORM_ASK_START :: "string \<Rightarrow> bool" where
  "FORM_ASK_START s =
     (prefix ''<ask-form'' s \<and>
      (case drop 9 s of [] \<Rightarrow> False | c # _ \<Rightarrow> c = CHR ''>'' \<or> py_isspace c \<or> c = CHR ''/''))"

subsection \<open>The helpers\<close>

fun partial_ask_suffix_loop :: "string list \<Rightarrow> string \<Rightarrow> nat" where
  "partial_ask_suffix_loop [] buf = 0"
| "partial_ask_suffix_loop (p # ps) buf =
     (if suffix p buf then length p else partial_ask_suffix_loop ps buf)"

definition partial_ask_suffix :: "string \<Rightarrow> nat" where
  "partial_ask_suffix buf = partial_ask_suffix_loop POSSIBLE_PREFIXES buf"

definition options :: "string \<Rightarrow> string list" where
  "options raw =
     (if raw \<noteq> [] then filter (\<lambda>o'. o' \<noteq> []) (map py_strip (py_split CHR ''|'' raw)) else [])"

text \<open>\<open>m.group("atype") or "text"\<close>, then the check against \<open>_VALID_TYPES\<close>.\<close>

definition atype_of :: "string option \<Rightarrow> string" where
  "atype_of g =
     (let atype = (case g of None \<Rightarrow> ''text'' | Some t \<Rightarrow> if t = [] then ''text'' else t)
      in if atype \<in> set VALID_TYPES then atype else ''text'')"

definition options_of :: "string option \<Rightarrow> string list" where
  "options_of g = options (case g of None \<Rightarrow> [] | Some r \<Rightarrow> r)"


subsection \<open>Extraction of one tag\<close>

text \<open>
  \<open>_try_extract_bare_ask\<close>. The result is \<open>(before, event, q, after)\<close> and the new
  registry; the queue \<open>q\<close> is given by its request id.
\<close>

definition try_extract_bare_ask ::
  "string \<Rightarrow> world \<Rightarrow> ((string \<times> event \<times> string \<times> string) \<times> world) option" where
  "try_extract_bare_ask buf w =
     (case re_search BARE_ASK_START buf of
        None \<Rightarrow> None
      | Some pos \<Rightarrow>
          (case str_find ''</ask>'' buf pos of
             None \<Rightarrow> None
           | Some close_end \<Rightarrow>
               (let full_tag = drop pos (take (close_end + 6) buf)
                in (case ASK_RE_match full_tag of
                      None \<Rightarrow> None
                    | Some ((atype_g, options_g, question_g), _) \<Rightarrow>
                        (let atype = atype_of atype_g;
                             question = py_strip question_g;
                             opts = options_of options_g;
                             req_id = uuid4 (uuid_counter w);
                             w' = register_interaction req_id
                                    (w\<lparr>uuid_counter := Suc (uuid_counter w)\<rparr>);
                             ev = InteractionRequestEvent req_id question atype opts
                         in Some ((take pos buf, ev, req_id, drop (close_end + 6) buf), w'))))))"

lemma attr_group_shorter: "attr_group key s = Some (v, r) \<Longrightarrow> length r < length s"
proof -
  assume a: "attr_group key s = Some (v, r)"
  let ?r = "dropWhile py_isspace s"
  let ?r2 = "drop (length key + 2) ?r"
  from a obtain c where "dropWhile (\<lambda>c. c \<noteq> CHR ''\"'') ?r2 = c # r"
    by (auto simp: attr_group_def Let_def split: if_splits list.splits)
  then have "length r < length (dropWhile (\<lambda>c. c \<noteq> CHR ''\"'') ?r2)" by simp
  also have "\<dots> \<le> length ?r2" by (rule length_dropWhile_le)
  also have "\<dots> \<le> length ?r" by simp
  also have "\<dots> \<le> length s" by (rule length_dropWhile_le)
  finally show ?thesis .
qed

lemma opt_group_shorter:
  assumes "\<And>g r y. k g r = Some y \<Longrightarrow> length (snd y) \<le> length r"
    and "opt_group key s k = Some x"
  shows "length (snd x) \<le> length s"
proof (cases "attr_group key s")
  case None
  with assms show ?thesis by (simp add: opt_group_def)
next
  case (Some p)
  obtain v r where p: "p = (v, r)" by (cases p)
  have lt: "length r < length s" using Some p attr_group_shorter by blast
  show ?thesis
  proof (cases "k (Some v) r")
    case None
    with Some p assms show ?thesis by (simp add: opt_group_def)
  next
    case (Some y)
    with \<open>attr_group key s = Some p\<close> p assms(2) have "x = y" by (simp add: opt_group_def)
    with Some assms(1) lt show ?thesis by fastforce
  qed
qed

lemma re_search_le: "re_search P s = Some i \<Longrightarrow> i \<le> length s"
  by (induction s arbitrary: i) (auto split: if_splits)

lemma re_search_prefix_bound:
  "re_search (prefix sub) s = Some i \<Longrightarrow> i + length sub \<le> length s"
proof (induction s arbitrary: i)
  case Nil
  then show ?case by (auto split: if_splits)
next
  case (Cons c cs)
  then show ?case by (auto split: if_splits dest: prefix_length_le)
qed

lemma ask_tail_shorter: "ask_tail s = Some (q, r) \<Longrightarrow> length r < length s"
proof -
  assume a: "ask_tail s = Some (q, r)"
  from a obtain c t i where t: "dropWhile (\<lambda>c. c \<noteq> CHR ''>'') s = c # t"
    and i: "re_search (prefix ''</ask>'') t = Some i" and r: "r = drop (i + 6) t"
    by (auto simp: ask_tail_def split: list.splits option.splits)
  have "length r \<le> length t" using r by simp
  also have "\<dots> < length (dropWhile (\<lambda>c. c \<noteq> CHR ''>'') s)" using t by simp
  also have "\<dots> \<le> length s" by (rule length_dropWhile_le)
  finally show ?thesis .
qed

lemma ask_head_shorter: "ask_head s = Some s0 \<Longrightarrow> length s0 < length s"
  by (auto simp: ask_head_def split: if_splits dest: prefix_length_le)

lemma FORM_CHILD_RE_match_shorter:
  assumes "FORM_CHILD_RE_match s = Some (g, rest)"
  shows "length rest < length s"
proof -
  from assms obtain s0 where h: "ask_head s = Some s0"
    and m: "opt_group ''name'' s0 (\<lambda>name s1.
          opt_group ''type'' s1 (\<lambda>atype s2.
          opt_group ''options'' s2 (\<lambda>opts s3.
            map_option (\<lambda>(q, rest). ((name, atype, opts, q), rest)) (ask_tail s3)))) = Some (g, rest)"
    by (auto simp: FORM_CHILD_RE_match_def split: option.splits)
  have tail: "\<And>name atype opts s3 y.
      map_option (\<lambda>(q, rest). ((name, atype, opts, q), rest)) (ask_tail s3) = Some y
      \<Longrightarrow> length (snd y) \<le> length s3"
    by (auto dest: ask_tail_shorter less_imp_le)
  have "length (snd (g, rest)) \<le> length s0"
    by (rule opt_group_shorter[OF _ m], rule opt_group_shorter, rule opt_group_shorter,
        rule tail)
  with ask_head_shorter[OF h] show ?thesis by simp
qed

text \<open>\<open>_FORM_CHILD_RE.finditer(s)\<close>: the matches from left to right, without overlap.\<close>

function finditer_child ::
  "string \<Rightarrow> (string option \<times> string option \<times> string option \<times> string) list" where
  "finditer_child s =
     (if s = [] then []
      else (case FORM_CHILD_RE_match s of
              Some (g, rest) \<Rightarrow> g # finditer_child rest
            | None \<Rightarrow> finditer_child (tl s)))"
  by pat_completeness auto
termination
  by (relation "measure length") (auto dest: FORM_CHILD_RE_match_shorter)

declare finditer_child.simps [simp del]

text \<open>The loop over \<open>enumerate(finditer)\<close> that builds the questions, \<open>i\<close> the index.\<close>

fun form_questions ::
  "nat \<Rightarrow> (string option \<times> string option \<times> string option \<times> string) list \<Rightarrow> FormQuestion list"
  where
  "form_questions i [] = []"
| "form_questions i ((name_g, atype_g, options_g, question_g) # ms) =
     FormQuestion
       (py_strip (case name_g of
                    None \<Rightarrow> ''q'' @ str_of_nat (i + 1)
                  | Some n \<Rightarrow> if n = [] then ''q'' @ str_of_nat (i + 1) else n))
       (py_strip question_g) (atype_of atype_g) (options_of options_g)
     # form_questions (Suc i) ms"

text \<open>\<open>re.search(r'paginated="true"', opening_tag, re.IGNORECASE)\<close>.\<close>

definition paginated_of :: "string \<Rightarrow> bool" where
  "paginated_of opening_tag =
     (re_search (\<lambda>t. prefix ''paginated=\"true\"'' (map ascii_lower t)) opening_tag \<noteq> None)"

definition try_extract_ask_form ::
  "string \<Rightarrow> world \<Rightarrow> ((string \<times> event \<times> string \<times> string) \<times> world) option" where
  "try_extract_ask_form buf w =
     (case re_search FORM_ASK_START buf of
        None \<Rightarrow> None
      | Some pos \<Rightarrow>
          (case str_find ''</ask-form>'' buf pos of
             None \<Rightarrow> None
           | Some close_end \<Rightarrow>
               (case str_find ''>'' buf pos of
                  None \<Rightarrow> None
                | Some open_close \<Rightarrow>
                    if open_close \<ge> close_end then None
                    else (let inner = drop (open_close + 1) (take close_end buf);
                              questions = form_questions 0 (finditer_child inner)
                          in if questions = [] then None
                             else (let opening_tag = drop pos (take (open_close + 1) buf);
                                       paginated = paginated_of opening_tag;
                                       req_id = uuid4 (uuid_counter w);
                                       w' = register_interaction req_id
                                              (w\<lparr>uuid_counter := Suc (uuid_counter w)\<rparr>);
                                       ev = InteractionFormEvent req_id questions paginated
                                   in Some ((take pos buf, ev, req_id,
                                             drop (close_end + 11) buf), w'))))))"

datatype tag_kind = Ask | Form

definition first_tag_pos :: "string \<Rightarrow> (nat \<times> tag_kind) option" where
  "first_tag_pos buf =
     (let m_ask = re_search BARE_ASK_START buf; m_form = re_search FORM_ASK_START buf
      in (case m_ask of
            None \<Rightarrow> (case m_form of None \<Rightarrow> None | Some f \<Rightarrow> Some (f, Form))
          | Some a \<Rightarrow>
              (case m_form of
                 None \<Rightarrow> Some (a, Ask)
               | Some f \<Rightarrow> if a \<le> f then Some (a, Ask) else Some (f, Form))))"

definition extractor ::
  "tag_kind \<Rightarrow> string \<Rightarrow> world \<Rightarrow> ((string \<times> event \<times> string \<times> string) \<times> world) option" where
  "extractor kind = (if kind = Form then try_extract_ask_form else try_extract_bare_ask)"

lemma str_find_bound: "str_find sub s pos = Some i \<Longrightarrow> pos \<le> length s \<Longrightarrow> i + length sub \<le> length s"
  by (auto simp: str_find_def dest!: re_search_prefix_bound)

lemma extractor_shorter:
  assumes "extractor kind buf w = Some ((before_text, ev, rid, rest), w')"
  shows "length rest < length buf"
proof (cases kind)
  case Ask
  with assms obtain pos close_end where p: "re_search BARE_ASK_START buf = Some pos"
    and c: "str_find ''</ask>'' buf pos = Some close_end"
    and r: "rest = drop (close_end + 6) buf"
    by (auto simp: extractor_def try_extract_bare_ask_def Let_def split: option.splits)
  from str_find_bound[OF c re_search_le[OF p]] r show ?thesis by simp
next
  case Form
  with assms obtain pos close_end where p: "re_search FORM_ASK_START buf = Some pos"
    and c: "str_find ''</ask-form>'' buf pos = Some close_end"
    and r: "rest = drop (close_end + 11) buf"
    by (auto simp: extractor_def try_extract_ask_form_def Let_def split: option.splits if_splits)
  from str_find_bound[OF c re_search_le[OF p]] r show ?thesis by simp
qed

subsection \<open>The buffer loop and the generator\<close>

text \<open>The text events of the flush points: nothing is emitted for an empty text.\<close>

definition text_event :: "string \<Rightarrow> event list" where
  "text_event s = (if s \<noteq> [] then [TextChunkEvent s] else [])"

text \<open>
  \<open>_process_buffer(buf, pending)\<close>: the \<open>while True\<close> loop as a recursion on the buffer
  left after an extracted tag. It returns the events, the remaining buffer, the pending
  list (the request ids of its entries) and the registry.
\<close>

function process_buffer ::
  "string \<Rightarrow> string list \<Rightarrow> world \<Rightarrow> event list \<times> string \<times> string list \<times> world" where
  "process_buffer buf pending w =
     (case first_tag_pos buf of
        None \<Rightarrow>
          (let keep = partial_ask_suffix buf;
               safe = (if keep \<noteq> 0 then take (length buf - keep) buf else buf)
           in (text_event safe,
               (if keep \<noteq> 0 then drop (length buf - keep) buf else []), pending, w))
      | Some (first_pos, kind) \<Rightarrow>
          (case extractor kind buf w of
             None \<Rightarrow>
               ((if first_pos > 0 then [TextChunkEvent (take first_pos buf)] else []),
                drop first_pos buf, pending, w)
           | Some ((before_text, ev, rid, rest), w') \<Rightarrow>
               (case process_buffer rest (pending @ [rid]) w' of
                  (events, buf', pending', w'') \<Rightarrow>
                    (text_event before_text @ [ev] @ events, buf', pending', w''))))"
  by pat_completeness auto
termination
  by (relation "measure (\<lambda>(buf, pending, w). length buf)") (auto dest: extractor_shorter)

declare process_buffer.simps [simp del]

text \<open>
  The flush before a non-text event (the block after \<open># Non-text event\<close>): the events
  and the buffer that is kept.
\<close>

definition flush_safe :: "string \<Rightarrow> event list \<times> string" where
  "flush_safe buf =
     (case first_tag_pos buf of
        None \<Rightarrow>
          (let keep = partial_ask_suffix buf;
               safe = (if keep \<noteq> 0 then take (length buf - keep) buf else buf)
           in (text_event safe, (if keep \<noteq> 0 then drop (length buf - keep) buf else [])))
      | Some (first_pos, kind) \<Rightarrow>
          ((if first_pos > 0 then [TextChunkEvent (take first_pos buf)] else []),
           drop first_pos buf))"

text \<open>
  \<open>parse_interactions(inner, pending)\<close> run on the events \<open>inner\<close> yields, from the
  buffer \<open>buf\<close> (\<open>""\<close> at the start): the events it yields, and the buffer, the pending
  list and the registry when it stops. It stops at the first \<open>DoneEvent\<close>.
\<close>

fun parse_loop ::
  "event list \<Rightarrow> string \<Rightarrow> string list \<Rightarrow> world \<Rightarrow> event list \<times> string \<times> string list \<times> world"
  where
  "parse_loop [] buf pending w = ([], buf, pending, w)"
| "parse_loop (TextChunkEvent c # inner) buf pending w =
     (case process_buffer (buf @ c) pending w of
        (evts, buf', pending', w') \<Rightarrow>
          (case parse_loop inner buf' pending' w' of
             (out, r) \<Rightarrow> (evts @ out, r)))"
| "parse_loop (DoneEvent # inner) buf pending w =
     (case flush_safe buf of
        (flushed, buf1) \<Rightarrow>
          (case process_buffer buf1 pending w of
             (evts, buf2, pending', w') \<Rightarrow>
               (flushed @ evts @ text_event buf2 @ (if pending' \<noteq> [] then [] else [DoneEvent]),
                buf2, pending', w')))"
| "parse_loop (e # inner) buf pending w =
     (case flush_safe buf of
        (flushed, buf1) \<Rightarrow>
          (case parse_loop inner buf1 pending w of
             (out, r) \<Rightarrow> (flushed @ [e] @ out, r)))"

definition parse_interactions ::
  "event list \<Rightarrow> string list \<Rightarrow> world \<Rightarrow> event list \<times> string \<times> string list \<times> world" where
  "parse_interactions inner pending w = parse_loop inner [] pending w"


section \<open>The CLI provider adapter (providers/claude\_cli.py)\<close>

text \<open>
  The adapter reads the lines of the subprocess. A line is given as the value
  \<open>json.loads\<close> returns for it, \<open>None\<close> for a blank line or one that is not JSON (both
  are skipped); JSON numbers are integers here. \<open>Inl\<close> is the exception Python raises:
  \<open>.get\<close> on a value that is not a dict (\<open>AttributeError\<close>), an unhashable dict key
  or a loop over a value that cannot be iterated (\<open>TypeError\<close>), a field of the wrong type
  given to an event class (\<open>ValidationError\<close>).
\<close>

definition truthy :: "json \<Rightarrow> bool" where
  "truthy j =
     (case j of
        JNull \<Rightarrow> False
      | JBool b \<Rightarrow> b
      | JNum n \<Rightarrow> n \<noteq> 0
      | JStr s \<Rightarrow> s \<noteq> []
      | JArr xs \<Rightarrow> xs \<noteq> []
      | JObj kvs \<Rightarrow> kvs \<noteq> [])"

definition get_or :: "(string \<times> json) list \<Rightarrow> string \<Rightarrow> json \<Rightarrow> json" where
  "get_or kvs k dflt = (case map_of kvs k of None \<Rightarrow> dflt | Some v \<Rightarrow> v)"

definition dict_get :: "json \<Rightarrow> string \<Rightarrow> json \<Rightarrow> error + json" where
  "dict_get d k dflt = (case d of JObj kvs \<Rightarrow> Inr (get_or kvs k dflt) | _ \<Rightarrow> Inl AttributeError)"

definition hashable :: "json \<Rightarrow> bool" where
  "hashable j = (case j of JArr _ \<Rightarrow> False | JObj _ \<Rightarrow> False | _ \<Rightarrow> True)"

text \<open>Dict keys compare as Python values: \<open>True == 1\<close> and \<open>False == 0\<close>.\<close>

definition key_of :: "json \<Rightarrow> json" where
  "key_of j = (case j of JBool b \<Rightarrow> JNum (if b then 1 else 0) | _ \<Rightarrow> j)"

text \<open>\<open>for block in v\<close>: a list gives its items, a string its characters, a dict its keys.\<close>

definition iter_json :: "json \<Rightarrow> error + json list" where
  "iter_json v =
     (case v of
        JArr xs \<Rightarrow> Inr xs
      | JStr s \<Rightarrow> Inr (map (\<lambda>c. JStr [c]) s)
      | JObj kvs \<Rightarrow> Inr (map (\<lambda>kv. JStr (fst kv)) kvs)
      | _ \<Rightarrow> Inl TypeError)"

text \<open>
  A generator step: the events it yields, then the exception that ends it or its result.
\<close>

type_synonym 'a res = "event list \<times> (error + 'a)"

definition bind_res :: "'a res \<Rightarrow> ('a \<Rightarrow> 'b res) \<Rightarrow> 'b res" where
  "bind_res m f =
     (case m of
        (es, Inl e) \<Rightarrow> (es, Inl e)
      | (es, Inr x) \<Rightarrow> (case f x of (es', r) \<Rightarrow> (es @ es', r)))"

definition lift :: "error + 'a \<Rightarrow> 'a res" where
  "lift r = ([], r)"

text \<open>
  \<open>pending_tools\<close>: \<open>tool_use_id -> [render_id, tool_name, input_dict_or_None]\<close>.
\<close>

type_synonym pending_tools = "(json \<times> (string \<times> json \<times> json option)) list"

record cli_state =
  captured_session_id :: json
  session_id_emitted :: bool
  current_text_id :: "string option"
  pending_tools :: pending_tools
  cli_uuid :: nat

definition cli_init :: cli_state where
  "cli_init = \<lparr>captured_session_id = JNull, session_id_emitted = False,
               current_text_id = None, pending_tools = [], cli_uuid = 0\<rparr>"

text \<open>The \<open>assistant\<close> branch: the loop over the blocks of the complete message.\<close>

fun assistant_blocks :: "json list \<Rightarrow> pending_tools \<Rightarrow> error + pending_tools" where
  "assistant_blocks [] pt = Inr pt"
| "assistant_blocks (block # bs) pt =
     (case block of
        JObj kvs \<Rightarrow>
          if get_or kvs ''type'' JNull = JStr ''tool_use'' then
            (let tool_use_id = get_or kvs ''id'' (JStr []);
                 tool_input = get_or kvs ''input'' (JObj [])
             in if \<not> hashable tool_use_id then Inl TypeError
                else (case map_of pt (key_of tool_use_id) of
                        Some (render_id, tool_name, old_input) \<Rightarrow>
                          assistant_blocks bs
                            (dict_set (key_of tool_use_id) (render_id, tool_name, Some tool_input) pt)
                      | None \<Rightarrow> assistant_blocks bs pt))
          else assistant_blocks bs pt
      | _ \<Rightarrow> assistant_blocks bs pt)"

text \<open>\<open>"".join(c.get("text", "") for c in content if isinstance(c, dict))\<close>.\<close>

fun join_texts :: "json list \<Rightarrow> error + string" where
  "join_texts [] = Inr []"
| "join_texts (c # cs) =
     (case c of
        JObj kvs \<Rightarrow>
          (case get_or kvs ''text'' (JStr []) of
             JStr t \<Rightarrow> (case join_texts cs of Inl e \<Rightarrow> Inl e | Inr r \<Rightarrow> Inr (t @ r))
           | _ \<Rightarrow> Inl TypeError)
      | _ \<Rightarrow> join_texts cs)"

text \<open>
  \<open>result_text\<close>; \<open>str_of\<close> is Python's \<open>str\<close> on a value that is neither a list nor a
  string, a parameter of the model.
\<close>

definition result_text_of :: "(json \<Rightarrow> string) \<Rightarrow> json \<Rightarrow> error + string" where
  "result_text_of str_of c =
     (case c of JArr cs \<Rightarrow> join_texts cs | JStr s \<Rightarrow> Inr s | _ \<Rightarrow> Inr (str_of c))"

text \<open>
  The \<open>user\<close> branch: the loop over the blocks, each \<open>tool_result\<close> closing its tool
  call. The \<open>ToolDoneEvent\<close> is built from \<open>tool_call_id\<close>, \<open>tool\<close>, \<open>output\<close> and \<open>error\<close>;
  its \<open>input\<close> is the default of the class, \<open>{}\<close>.
\<close>

fun user_blocks :: "(json \<Rightarrow> string) \<Rightarrow> json list \<Rightarrow> pending_tools \<Rightarrow> pending_tools res" where
  "user_blocks str_of [] pt = ([], Inr pt)"
| "user_blocks str_of (block # bs) pt =
     (case block of
        JObj kvs \<Rightarrow>
          if get_or kvs ''type'' JNull = JStr ''tool_result'' then
            (let tool_use_id = get_or kvs ''tool_use_id'' (JStr []);
                 is_error = get_or kvs ''is_error'' (JBool False);
                 content = get_or kvs ''content'' (JStr [])
             in (case result_text_of str_of content of
                   Inl e \<Rightarrow> ([], Inl e)
                 | Inr result_text \<Rightarrow>
                     if \<not> hashable tool_use_id then ([], Inl TypeError)
                     else (case map_of pt (key_of tool_use_id) of
                             None \<Rightarrow> user_blocks str_of bs pt
                           | Some (render_id, tool_name, tool_input) \<Rightarrow>
                               (case tool_name of
                                  JStr name \<Rightarrow>
                                    bind_res
                                      ([ToolDoneEvent render_id name result_text
                                          (if truthy is_error then Some result_text else None) []],
                                       Inr ())
                                      (\<lambda>u. user_blocks str_of bs (dict_pop (key_of tool_use_id) pt))
                                | _ \<Rightarrow> ([], Inl ValidationError)))))
          else user_blocks str_of bs pt
      | _ \<Rightarrow> user_blocks str_of bs pt)"

text \<open>The \<open>stream_event\<close> branch.\<close>

definition stream_event :: "json \<Rightarrow> cli_state \<Rightarrow> cli_state res" where
  "stream_event event st =
     bind_res (lift (dict_get event ''event'' (JObj []))) (\<lambda>raw.
     bind_res (lift (dict_get raw ''type'' (JStr []))) (\<lambda>raw_type.
       if raw_type = JStr ''content_block_start'' then
         bind_res (lift (dict_get raw ''content_block'' (JObj []))) (\<lambda>block.
         bind_res (lift (dict_get block ''type'' JNull)) (\<lambda>block_type.
           if block_type = JStr ''text'' then
             ([], Inr (st\<lparr>current_text_id := Some (uuid4 (cli_uuid st)),
                           cli_uuid := Suc (cli_uuid st)\<rparr>))
           else if block_type = JStr ''tool_use'' then
             bind_res (lift (dict_get block ''id'' (JStr []))) (\<lambda>tool_use_id.
             bind_res (lift (dict_get block ''name'' (JStr ''unknown''))) (\<lambda>tool_name.
               (let render_id = uuid4 (cli_uuid st)
                in if \<not> hashable tool_use_id then ([], Inl TypeError)
                   else (case tool_name of
                           JStr name \<Rightarrow>
                             ([ToolStartEvent render_id name []],
                              Inr (st\<lparr>pending_tools :=
                                         dict_set (key_of tool_use_id) (render_id, tool_name, None)
                                           (pending_tools st),
                                       current_text_id := None,
                                       cli_uuid := Suc (cli_uuid st)\<rparr>))
                         | _ \<Rightarrow> ([], Inl ValidationError)))))
           else ([], Inr st)))
       else if raw_type = JStr ''content_block_delta'' then
         bind_res (lift (dict_get raw ''delta'' (JObj []))) (\<lambda>delta.
         bind_res (lift (dict_get delta ''type'' JNull)) (\<lambda>delta_type.
           if delta_type = JStr ''text_delta''
              \<and> (case current_text_id st of None \<Rightarrow> False | Some t \<Rightarrow> t \<noteq> []) then
             bind_res (lift (dict_get delta ''text'' (JStr []))) (\<lambda>text.
               (case text of
                  JStr t \<Rightarrow> ([TextChunkEvent t], Inr st)
                | _ \<Rightarrow> ([], Inl ValidationError)))
           else ([], Inr st)))
       else if raw_type = JStr ''message_stop'' then
         ([], Inr (st\<lparr>current_text_id := None\<rparr>))
       else ([], Inr st)))"

text \<open>The body of the loop over the lines, for one decoded line.\<close>

definition handle_line :: "(json \<Rightarrow> string) \<Rightarrow> json \<Rightarrow> cli_state \<Rightarrow> cli_state res" where
  "handle_line str_of event st =
     bind_res (lift (dict_get event ''type'' JNull)) (\<lambda>event_type.
     bind_res (lift (if event_type = JStr ''system'' then dict_get event ''subtype'' JNull
                     else Inr JNull)) (\<lambda>subtype.
       if event_type = JStr ''system'' \<and> subtype = JStr ''init'' then
         bind_res (lift (dict_get event ''session_id'' JNull)) (\<lambda>sid.
           if truthy sid \<and> \<not> truthy (captured_session_id st) then
             (case sid of
                JStr sid_s \<Rightarrow>
                  ([SessionIdEvent sid_s],
                   Inr (st\<lparr>captured_session_id := sid, session_id_emitted := True\<rparr>))
              | _ \<Rightarrow> ([], Inl ValidationError))
           else ([], Inr st))
       else if event_type = JStr ''stream_event'' then stream_event event st
       else if event_type = JStr ''assistant'' then
         bind_res (lift (dict_get event ''message'' (JObj []))) (\<lambda>msg.
         bind_res (lift (dict_get msg ''content'' (JArr []))) (\<lambda>blocks.
         bind_res (lift (iter_json blocks)) (\<lambda>bs.
         bind_res (lift (assistant_blocks bs (pending_tools st))) (\<lambda>pt.
           ([], Inr (st\<lparr>pending_tools := pt\<rparr>))))))
       else if event_type = JStr ''user'' then
         bind_res (lift (dict_get event ''message'' (JObj []))) (\<lambda>msg.
         bind_res (lift (dict_get msg ''content'' (JArr []))) (\<lambda>blocks.
         bind_res (lift (iter_json blocks)) (\<lambda>bs.
         bind_res (user_blocks str_of bs (pending_tools st)) (\<lambda>pt.
           ([], Inr (st\<lparr>pending_tools := pt\<rparr>))))))
       else if event_type = JStr ''result'' then
         bind_res (lift (dict_get event ''session_id'' JNull)) (\<lambda>sid.
           if truthy sid \<and> \<not> session_id_emitted st then
             (case sid of
                JStr sid_s \<Rightarrow>
                  ([SessionIdEvent sid_s, DoneEvent],
                   Inr (st\<lparr>current_text_id := None, captured_session_id := sid\<rparr>))
              | _ \<Rightarrow> ([], Inl ValidationError))
           else if truthy sid then
             ([DoneEvent], Inr (st\<lparr>current_text_id := None, captured_session_id := sid\<rparr>))
           else ([DoneEvent], Inr (st\<lparr>current_text_id := None\<rparr>)))
       else ([], Inr st)))"

text \<open>\<open>str(e)\<close> of an exception, for the \<open>ErrorEvent\<close>: the text is not modelled beyond its kind.\<close>

fun str_of_error :: "error \<Rightarrow> string" where
  "str_of_error QueueFull = ''QueueFull''"
| "str_of_error AttributeError = ''AttributeError''"
| "str_of_error TypeError = ''TypeError''"
| "str_of_error ValidationError = ''ValidationError''"
| "str_of_error KeyError = ''KeyError''"
| "str_of_error (ProviderError m) = m"

text \<open>
  \<open>ClaudeCliProvider.run._gen\<close> on the lines of the subprocess: the events it yields. An
  exception ends the loop with an \<open>ErrorEvent\<close>.
\<close>

fun cli_gen :: "(json \<Rightarrow> string) \<Rightarrow> json option list \<Rightarrow> cli_state \<Rightarrow> event list" where
  "cli_gen str_of [] st = []"
| "cli_gen str_of (None # ls) st = cli_gen str_of ls st"
| "cli_gen str_of (Some event # ls) st =
     (case handle_line str_of event st of
        (es, Inl e) \<Rightarrow> es @ [ErrorEvent (str_of_error e)]
      | (es, Inr st') \<Rightarrow> es @ cli_gen str_of ls st')"

definition cli_run :: "(json \<Rightarrow> string) \<Rightarrow> json option list \<Rightarrow> event list" where
  "cli_run str_of ls = cli_gen str_of ls cli_init"


section \<open>The conversation state and the turn engine (core/models.py, core/session.py)\<close>

text \<open>
  Times are readings of a clock that advances with every \<open>datetime.utcnow()\<close>. Of
  \<open>SessionState\<close> the fields the turn engine writes are modelled (the title and the
  flags are not).
\<close>

record ToolCall =
  tc_id :: string
  tc_tool :: string
  tc_input :: "(string \<times> json) list"
  tc_output :: "string option"
  tc_error :: "string option"
  tc_started_at :: nat
  tc_completed_at :: "nat option"

record Message =
  msg_role :: string
  msg_content :: string
  msg_tool_calls :: "ToolCall list"
  msg_timestamp :: nat

record SessionState =
  st_id :: string
  st_messages :: "Message list"
  st_updated_at :: nat
  st_cli_session_id :: "string option"

text \<open>
  A \<open>Session\<close> with what it acts on: its state, the store (what \<open>save\<close> has written,
  by session id) and the clock.
\<close>

record session =
  state :: SessionState
  store :: "(string \<times> SessionState) list"
  clock :: nat

text \<open>
  A provider: \<open>run(system_prompt, history, message, cli_session_id)\<close> gives the events
  its generator yields and, when the generator raises after them, the exception.
\<close>

type_synonym provider =
  "string \<Rightarrow> Message list \<Rightarrow> string \<Rightarrow> string option \<Rightarrow> event list \<times> error option"

text \<open>
  The accumulators of one \<open>send\<close>. \<open>in_flight_tools\<close> maps a call id to its
  \<open>ToolCall\<close> object, which is also an element of \<open>assistant_tool_calls\<close>: the object is
  given by its index in that list.
\<close>

record accum =
  assistant_content :: string
  assistant_tool_calls :: "ToolCall list"
  in_flight_tools :: "(string \<times> nat) list"
  had_tool_since_text :: bool

definition accum_init :: accum where
  "accum_init = \<lparr>assistant_content = [], assistant_tool_calls = [], in_flight_tools = [],
                 had_tool_since_text = False\<rparr>"

definition store_save :: "SessionState \<Rightarrow> (string \<times> SessionState) list \<Rightarrow> (string \<times> SessionState) list"
  where
  "store_save st sto = dict_set (st_id st) st sto"

text \<open>
  The assistant message of the accumulators is appended to the state and the state is
  saved: the body of the \<open>DoneEvent\<close> branch, and of the \<open>if assistant_content:\<close> block of
  the exception handler.
\<close>

definition append_assistant :: "accum \<Rightarrow> session \<Rightarrow> session" where
  "append_assistant a s =
     (let assistant_msg = \<lparr>msg_role = ''assistant'', msg_content = assistant_content a,
                            msg_tool_calls = assistant_tool_calls a, msg_timestamp = clock s\<rparr>;
          st' = (state s)\<lparr>st_messages := st_messages (state s) @ [assistant_msg],
                          st_updated_at := clock s + 1\<rparr>
      in s\<lparr>state := st', store := store_save st' (store s), clock := clock s + 2\<rparr>)"

text \<open>
  The body of the \<open>async for\<close> of \<open>_gen\<close> for one event of the provider: the event it
  yields, if any, with the new accumulators and session.
\<close>

fun gen_step :: "event \<Rightarrow> accum \<Rightarrow> session \<Rightarrow> event option \<times> accum \<times> session" where
  "gen_step (SessionIdEvent sid) a s =
     (None, a, s\<lparr>state := (state s)\<lparr>st_cli_session_id := Some sid\<rparr>\<rparr>)"
| "gen_step (TextChunkEvent c) a s =
     (Some (TextChunkEvent c),
      a\<lparr>assistant_content :=
           (if had_tool_since_text a \<and> assistant_content a \<noteq> []
            then assistant_content a @ [CHR 0x0A, CHR 0x0A] else assistant_content a) @ c,
         had_tool_since_text := False\<rparr>,
      s)"
| "gen_step (ToolStartEvent call_id tool inp) a s =
     (let tc = \<lparr>tc_id = call_id, tc_tool = tool, tc_input = inp, tc_output = None,
                tc_error = None, tc_started_at = clock s, tc_completed_at = None\<rparr>
      in (Some (ToolStartEvent call_id tool inp),
          a\<lparr>in_flight_tools := dict_set call_id (length (assistant_tool_calls a)) (in_flight_tools a),
            assistant_tool_calls := assistant_tool_calls a @ [tc]\<rparr>,
          s\<lparr>clock := clock s + 1\<rparr>))"
| "gen_step (ToolDoneEvent call_id tool outp err inp) a s =
     (case map_of (in_flight_tools a) call_id of
        Some i \<Rightarrow>
          (let tc = assistant_tool_calls a ! i;
               tc' = tc\<lparr>tc_output := Some outp, tc_error := err,
                        tc_completed_at := Some (clock s),
                        tc_input := (if inp \<noteq> [] then inp else tc_input tc)\<rparr>
           in (Some (ToolDoneEvent call_id tool outp err inp),
               a\<lparr>in_flight_tools := dict_pop call_id (in_flight_tools a),
                 assistant_tool_calls := (assistant_tool_calls a)[i := tc'],
                 had_tool_since_text := True\<rparr>,
               s\<lparr>clock := clock s + 1\<rparr>))
      | None \<Rightarrow>
          (Some (ToolDoneEvent call_id tool outp err inp), a\<lparr>had_tool_since_text := True\<rparr>, s))"
| "gen_step DoneEvent a s = (Some DoneEvent, a, append_assistant a s)"
| "gen_step e a s = (Some e, a, s)"

text \<open>The exception handler of \<open>_gen\<close>: the partial content is saved if there is any.\<close>

definition gen_except :: "error \<Rightarrow> accum \<Rightarrow> session \<Rightarrow> event list \<times> accum \<times> session" where
  "gen_except e a s =
     ([ErrorEvent (str_of_error e)], a,
      (if assistant_content a \<noteq> [] then append_assistant a s else s))"

text \<open>
  \<open>_gen\<close> driven over the events \<open>evs\<close> of the provider, which then raises \<open>exc\<close> or
  ends: the events yielded, the accumulators and the session at the end.
\<close>

fun gen_loop ::
  "event list \<Rightarrow> error option \<Rightarrow> accum \<Rightarrow> session \<Rightarrow> event list \<times> accum \<times> session" where
  "gen_loop [] None a s = ([], a, s)"
| "gen_loop [] (Some e) a s = gen_except e a s"
| "gen_loop (ev # evs) exc a s =
     (case gen_step ev a s of
        (y, a', s') \<Rightarrow>
          (case gen_loop evs exc a' s' of
             (ys, r) \<Rightarrow> ((case y of None \<Rightarrow> [] | Some e \<Rightarrow> [e]) @ ys, r)))"

text \<open>
  The head of \<open>send\<close>: the user message is appended to the state (and not saved).
\<close>

definition send_user :: "string \<Rightarrow> session \<Rightarrow> session" where
  "send_user message s =
     (let user_msg = \<lparr>msg_role = ''user'', msg_content = message, msg_tool_calls = [],
                       msg_timestamp = clock s\<rparr>
      in s\<lparr>state := (state s)\<lparr>st_messages := st_messages (state s) @ [user_msg]\<rparr>,
           clock := clock s + 1\<rparr>)"

text \<open>
  The consumer of the generator, \<open>parse_interactions\<close>, returns at the first
  \<open>DoneEvent\<close> and never resumes it: of the provider's events the generator sees those up
  to the first \<open>DoneEvent\<close>, and the exception only when no \<open>DoneEvent\<close> comes before it.
\<close>

fun upto_done :: "event list \<Rightarrow> event list" where
  "upto_done [] = []"
| "upto_done (DoneEvent # evs) = [DoneEvent]"
| "upto_done (e # evs) = e # upto_done evs"

text \<open>
  \<open>Session.send(message)\<close> with its generator driven by \<open>parse_interactions\<close>:
  the events the generator yields and the session after it.
\<close>

definition send :: "provider \<Rightarrow> string \<Rightarrow> string \<Rightarrow> session \<Rightarrow> event list \<times> accum \<times> session" where
  "send prov system_prompt message s =
     (let s1 = send_user message s;
          r = prov system_prompt (butlast (st_messages (state s1))) message
                (st_cli_session_id (state s1));
          evs = fst r;
          exc = (if DoneEvent \<in> set evs then None else snd r)
      in gen_loop (upto_done evs) exc accum_init s1)"


section \<open>The transport loop (api/websocket/handlers.py)\<close>









text \<open>
  The per-connection state of \<open>websocket_endpoint\<close>: \<open>stop_event\<close>,
  \<open>current_stream_task\<close> (a handle into the tasks created so far, each with the
  content it was started on and its status), the frames the loop itself has sent, and
  the interaction registry.
\<close>

datatype task_status = Running | CancelRequested | Finished

record conn =
  stop_event :: bool
  current_stream_task :: "nat option"
  tasks :: "(nat \<times> string \<times> task_status) list"
  ws_sent :: "json list"
  registry :: world

text \<open>\<open>current_stream_task and not current_stream_task.done()\<close>.\<close>

definition in_flight :: "conn \<Rightarrow> bool" where
  "in_flight c =
     (case current_stream_task c of
        None \<Rightarrow> False
      | Some t \<Rightarrow>
          (case map_of (tasks c) t of
             None \<Rightarrow> False
           | Some (content, status) \<Rightarrow> status \<noteq> Finished))"

definition cancel :: "conn \<Rightarrow> conn" where
  "cancel c =
     (case current_stream_task c of
        None \<Rightarrow> c
      | Some t \<Rightarrow>
          (case map_of (tasks c) t of
             None \<Rightarrow> c
           | Some (content, status) \<Rightarrow>
               c\<lparr>tasks := dict_set t (content, CancelRequested) (tasks c)\<rparr>))"

definition create_task :: "string \<Rightarrow> conn \<Rightarrow> conn" where
  "create_task content c =
     c\<lparr>tasks := tasks c @ [(length (tasks c), content, Running)],
       current_stream_task := Some (length (tasks c))\<rparr>"

text \<open>
  The body of the receive loop for one client message \<open>msg\<close> (the value of
  \<open>ws.receive_json()\<close>). \<open>Inl\<close> is an exception, which ends the loop; both \<open>continue\<close>
  and the end of the body give the state for the next round. In an
  \<open>interaction_response\<close>, \<open>request_id\<close> is looked up as a key of the registry, whose keys
  are strings.
\<close>

definition handle_message :: "json \<Rightarrow> conn \<Rightarrow> error + conn" where
  "handle_message msg c =
     (case dict_get msg ''type'' JNull of
        Inl e \<Rightarrow> Inl e
      | Inr msg_type \<Rightarrow>
          if msg_type = JStr ''ping'' then
            Inr (c\<lparr>ws_sent := ws_sent c @ [JObj [(''type'', JStr ''system''), (''text'', JStr ''pong'')]]\<rparr>)
          else if msg_type = JStr ''stop'' then
            (if in_flight c then Inr ((cancel c)\<lparr>stop_event := True\<rparr>) else Inr c)
          else if msg_type = JStr ''user_message'' then
            (case dict_get msg ''content'' (JStr []) of
               Inl e \<Rightarrow> Inl e
             | Inr (JStr raw) \<Rightarrow>
                 (let content = py_strip raw
                  in if content = [] then Inr c
                     else Inr (create_task content
                                 ((if in_flight c then cancel c else c)\<lparr>stop_event := False\<rparr>)))
             | Inr other \<Rightarrow> Inl AttributeError)
          else if msg_type = JStr ''interaction_response'' then
            (case dict_get msg ''request_id'' (JStr []) of
               Inl e \<Rightarrow> Inl e
             | Inr request_id \<Rightarrow>
                 (case dict_get msg ''value'' (JStr []) of
                    Inl e \<Rightarrow> Inl e
                  | Inr v \<Rightarrow>
                      (case request_id of
                         JStr rid \<Rightarrow>
                           (case resolve_interaction rid v (registry c) of
                              Inl e \<Rightarrow> Inl e
                            | Inr w \<Rightarrow> Inr (c\<lparr>registry := w\<rparr>))
                       | JArr xs \<Rightarrow> Inl TypeError
                       | JObj kvs \<Rightarrow> Inl TypeError
                       | other \<Rightarrow> Inr c)))
          else Inr c)"


section \<open>Concrete inputs and observations\<close>

definition count_role :: "string \<Rightarrow> Message list \<Rightarrow> nat" where
  "count_role r ms = length (filter (\<lambda>m. msg_role m = r) ms)"

text \<open>The roles and contents of the messages the store holds for a session.\<close>

definition stored_messages :: "(string \<times> SessionState) list \<Rightarrow> string \<Rightarrow> (string \<times> string) list" where
  "stored_messages sto sid =
     (case map_of sto sid of
        None \<Rightarrow> []
      | Some st \<Rightarrow> map (\<lambda>m. (msg_role m, msg_content m)) (st_messages st))"

definition world0 :: world where
  "world0 = \<lparr>uuid_counter = 0, pending_async = []\<rparr>"

definition state0 :: SessionState where
  "state0 = \<lparr>st_id = ''s1'', st_messages = [], st_updated_at = 0, st_cli_session_id = None\<rparr>"

definition session0 :: session where
  "session0 = \<lparr>state = state0, store = [(''s1'', state0)], clock = 0\<rparr>"


definition failing_provider :: provider where
  "failing_provider system_prompt history message sid =
     ([ToolStartEvent ''c1'' ''bash'' [], ToolDoneEvent ''c1'' ''bash'' ''a.txt'' None []],
      Some (ProviderError ''boom''))"

definition failing_text_provider :: provider where
  "failing_text_provider system_prompt history message sid =
     ([TextChunkEvent ''Let me look.'', ToolStartEvent ''c1'' ''bash'' []],
      Some (ProviderError ''boom''))"


text \<open>
  The lines of a CLI run with one tool call: the tool starts, the complete assistant
  message gives its input, the tool result closes it, the run ends.
\<close>

definition tool_lines :: "json option list" where
  "tool_lines =
     [Some (JObj [(''type'', JStr ''stream_event''),
                  (''event'', JObj [(''type'', JStr ''content_block_start''),
                     (''content_block'', JObj [(''type'', JStr ''tool_use''),
                        (''id'', JStr ''t1''), (''name'', JStr ''bash'')])])]),
      Some (JObj [(''type'', JStr ''assistant''),
                  (''message'', JObj [(''content'', JArr [JObj [(''type'', JStr ''tool_use''),
                     (''id'', JStr ''t1''),
                     (''input'', JObj [(''command'', JStr ''ls'')])]])])]),
      Some (JObj [(''type'', JStr ''user''),
                  (''message'', JObj [(''content'', JArr [JObj [(''type'', JStr ''tool_result''),
                     (''tool_use_id'', JStr ''t1''), (''content'', JStr ''a.txt'')]])])]),
      Some (JObj [(''type'', JStr ''result''), (''session_id'', JStr ''s1'')])]"

definition no_str :: "json \<Rightarrow> string" where
  "no_str j = []"

text \<open>A connection with a turn task in flight.\<close>

definition busy_conn :: conn where
  "busy_conn = \<lparr>stop_event = False, current_stream_task = Some 0,
                tasks = [(0, ''first question'', Running)], ws_sent = [], registry = world0\<rparr>"

text \<open>
  Observations on event lists. \<open>coalesce\<close> merges every run of adjacent text chunks
  into one chunk (and drops empty chunks): two event lists with the same \<open>coalesce\<close>
  carry the same text between the same other events. \<open>texts\<close> is the text of all
  chunks, \<open>request_ids\<close> the ids of the interaction events.
\<close>

fun is_text :: "event \<Rightarrow> bool" where
  "is_text (TextChunkEvent c) = True"
| "is_text e = False"

fun merge_text :: "string \<Rightarrow> event list \<Rightarrow> event list" where
  "merge_text acc [] = text_event acc"
| "merge_text acc (TextChunkEvent c # es) = merge_text (acc @ c) es"
| "merge_text acc (e # es) = text_event acc @ e # merge_text [] es"

definition coalesce :: "event list \<Rightarrow> event list" where
  "coalesce es = merge_text [] es"

fun texts :: "event list \<Rightarrow> string" where
  "texts [] = []"
| "texts (TextChunkEvent c # es) = c @ texts es"
| "texts (e # es) = texts es"

fun is_interaction :: "event \<Rightarrow> bool" where
  "is_interaction (InteractionRequestEvent rid question input_type opts) = True"
| "is_interaction (InteractionFormEvent rid questions paginated) = True"
| "is_interaction e = False"

fun request_ids :: "event list \<Rightarrow> string list" where
  "request_ids [] = []"
| "request_ids (InteractionRequestEvent rid question input_type opts # es) = rid # request_ids es"
| "request_ids (InteractionFormEvent rid questions paginated # es) = rid # request_ids es"
| "request_ids (e # es) = request_ids es"

text \<open>
  Notions for the proofs about the parser: a tag of either kind starts at the head of
  \<open>s\<close>; a pattern that reads a window of \<open>N\<close> characters; \<open>_process_buffer\<close> run on
  \<open>a\<close> and then on what it kept followed by \<open>b\<close>.
\<close>

definition tag_start :: "string \<Rightarrow> bool" where
  "tag_start s = (BARE_ASK_START s \<or> FORM_ASK_START s)"

definition windowed :: "nat \<Rightarrow> (string \<Rightarrow> bool) \<Rightarrow> bool" where
  "windowed N P = ((\<forall>s. P s \<longrightarrow> N \<le> length s) \<and> (\<forall>s t. N \<le> length s \<longrightarrow> P (s @ t) = P s))"

definition two_steps ::
  "string \<Rightarrow> string \<Rightarrow> string list \<Rightarrow> world \<Rightarrow> event list \<times> string \<times> string list \<times> world" where
  "two_steps a b p w =
     (case process_buffer a p w of
        (e1, r1, p1, w1) \<Rightarrow>
          (case process_buffer (r1 @ b) p1 w1 of (e2, st) \<Rightarrow> (e1 @ e2, st)))"

section \<open>The turn engine: what is persisted\<close>

lemma gen_step_frame:
  assumes "ev \<noteq> DoneEvent" and "gen_step ev a s = (y, a', s')"
  shows "st_messages (state s') = st_messages (state s) \<and> store s' = store s
         \<and> st_id (state s') = st_id (state s)"
  using assms by (cases ev) (auto simp: Let_def split: option.splits)


lemma upto_done_id: "DoneEvent \<notin> set evs \<Longrightarrow> upto_done evs = evs"
proof (induction evs)
  case Nil
  then show ?case by simp
next
  case (Cons ev evs)
  then show ?case by (cases ev) auto
qed

lemma gen_loop_except:
  assumes "DoneEvent \<notin> set evs" and "gen_loop evs (Some e) a s = (ys, a', s')"
  shows "\<exists>ys0 s''. ys = ys0 @ [ErrorEvent (str_of_error e)]
           \<and> s' = (if assistant_content a' \<noteq> [] then append_assistant a' s'' else s'')
           \<and> st_messages (state s'') = st_messages (state s)
           \<and> store s'' = store s \<and> st_id (state s'') = st_id (state s)"
  using assms
proof (induction evs arbitrary: a s ys a' s')
  case Nil
  then show ?case by (auto simp: gen_except_def)
next
  case (Cons ev evs)
  from Cons.prems(1) have ne: "ev \<noteq> DoneEvent" and nd: "DoneEvent \<notin> set evs" by auto
  obtain y a1 s1 where st: "gen_step ev a s = (y, a1, s1)" by (cases "gen_step ev a s") auto
  obtain ys1 a2 s2 where lp: "gen_loop evs (Some e) a1 s1 = (ys1, a2, s2)"
    by (cases "gen_loop evs (Some e) a1 s1") auto
  from Cons.prems(2) st lp
  have eq: "a' = a2" "s' = s2" "ys = (case y of None \<Rightarrow> [] | Some x \<Rightarrow> [x]) @ ys1" by auto
  from Cons.IH[OF nd lp] obtain ys0 s'' where
    h: "ys1 = ys0 @ [ErrorEvent (str_of_error e)]"
       "s2 = (if assistant_content a2 \<noteq> [] then append_assistant a2 s'' else s'')"
       "st_messages (state s'') = st_messages (state s1)"
       "store s'' = store s1" "st_id (state s'') = st_id (state s1)"
    by blast
  from gen_step_frame[OF ne st] h eq
  have "ys = ((case y of None \<Rightarrow> [] | Some x \<Rightarrow> [x]) @ ys0) @ [ErrorEvent (str_of_error e)]
        \<and> s' = (if assistant_content a' \<noteq> [] then append_assistant a' s'' else s'')
        \<and> st_messages (state s'') = st_messages (state s)
        \<and> store s'' = store s \<and> st_id (state s'') = st_id (state s)"
    by simp
  then show ?case by blast
qed

lemma map_of_dict_set: "map_of (dict_set k v kvs) k = Some v"
  by (induction kvs) auto

lemma map_of_dict_set_other: "k' \<noteq> k \<Longrightarrow> map_of (dict_set k v kvs) k' = map_of kvs k'"
  by (induction kvs) auto

lemma append_assistant_counts:
  "count_role ''assistant'' (st_messages (state (append_assistant a s)))
     = count_role ''assistant'' (st_messages (state s)) + 1"
  "count_role ''user'' (st_messages (state (append_assistant a s)))
     = count_role ''user'' (st_messages (state s))"
  "map_of (store (append_assistant a s)) (st_id (state (append_assistant a s)))
     = Some (state (append_assistant a s))"
  by (simp_all add: append_assistant_def count_role_def Let_def store_save_def map_of_dict_set)






text \<open>
  C6, as the code has it. When the provider raises before any \<open>DoneEvent\<close>, the generator
  of \<open>send\<close> ends with one \<open>ErrorEvent\<close> carrying the text of the exception. If text was
  accumulated, an assistant message with that text and the accumulated tool calls is
  appended after the user message and the state is saved; if no text was accumulated,
  no assistant message is appended and nothing is saved, whatever tool calls were
  accumulated.
\<close>

theorem failure_persists_only_with_text:
  assumes "prov sp (st_messages (state s)) message (st_cli_session_id (state s)) = (evs, Some e)"
    and "DoneEvent \<notin> set evs"
    and "send prov sp message s = (ys, a, s')"
  shows "(\<exists>ys0. ys = ys0 @ [ErrorEvent (str_of_error e)])
         \<and> (assistant_content a \<noteq> [] \<longrightarrow>
              (\<exists>t. st_messages (state s') =
                     st_messages (state (send_user message s))
                     @ [\<lparr>msg_role = ''assistant'', msg_content = assistant_content a,
                          msg_tool_calls = assistant_tool_calls a, msg_timestamp = t\<rparr>])
              \<and> map_of (store s') (st_id (state s')) = Some (state s'))
         \<and> (assistant_content a = [] \<longrightarrow>
              st_messages (state s') = st_messages (state (send_user message s))
              \<and> store s' = store s)"
proof -
  let ?s1 = "send_user message s"
  have h: "butlast (st_messages (state ?s1)) = st_messages (state s)"
    "st_cli_session_id (state ?s1) = st_cli_session_id (state s)" "store ?s1 = store s"
    by (simp_all add: send_user_def Let_def)
  from assms have "gen_loop evs (Some e) accum_init ?s1 = (ys, a, s')"
    by (simp add: send_def Let_def h upto_done_id)
  from gen_loop_except[OF assms(2) this] obtain ys0 s'' where
    g: "ys = ys0 @ [ErrorEvent (str_of_error e)]"
       "s' = (if assistant_content a \<noteq> [] then append_assistant a s'' else s'')"
       "st_messages (state s'') = st_messages (state ?s1)" "store s'' = store ?s1"
    by blast
  show ?thesis
  proof (cases "assistant_content a = []")
    case True
    with g h show ?thesis by simp
  next
    case False
    with g have s': "s' = append_assistant a s''" by simp
    have "st_messages (state s') =
            st_messages (state ?s1)
            @ [\<lparr>msg_role = ''assistant'', msg_content = assistant_content a,
                 msg_tool_calls = assistant_tool_calls a, msg_timestamp = clock s''\<rparr>]"
      using g(3) by (simp add: s' append_assistant_def Let_def)
    with False g(1) show ?thesis by (auto simp: s' append_assistant_counts(3))
  qed
qed

theorem failure_persists_only_with_text_witness:
  "(case send failing_text_provider [] ''hi'' session0 of
      (ys, a, s') \<Rightarrow>
        last ys = ErrorEvent ''boom'' \<and> assistant_content a = ''Let me look.''
        \<and> stored_messages (store s') ''s1'' = [(''user'', ''hi''), (''assistant'', ''Let me look.'')])"
proof -
  obtain ys a s' where r: "send failing_text_provider [] ''hi'' session0 = (ys, a, s')"
    by (cases "send failing_text_provider [] ''hi'' session0") auto
  have p: "failing_text_provider [] (st_messages (state session0)) ''hi''
             (st_cli_session_id (state session0))
           = ([TextChunkEvent ''Let me look.'', ToolStartEvent ''c1'' ''bash'' []],
              Some (ProviderError ''boom''))"
    by (simp add: failing_text_provider_def)
  have nd: "DoneEvent \<notin> set [TextChunkEvent ''Let me look.'', ToolStartEvent ''c1'' ''bash'' []]"
    by simp
  have c: "assistant_content (fst (snd (send failing_text_provider [] ''hi'' session0)))
             = ''Let me look.''"
    "st_id (state (snd (snd (send failing_text_provider [] ''hi'' session0)))) = ''s1''"
    by code_simp+
  with r have ca: "assistant_content a = ''Let me look.''" and id: "st_id (state s') = ''s1''"
    by simp_all
  have u: "st_messages (state (send_user ''hi'' session0))
             = [\<lparr>msg_role = ''user'', msg_content = ''hi'', msg_tool_calls = [], msg_timestamp = 0\<rparr>]"
    by (simp add: send_user_def session0_def state0_def Let_def)
  from failure_persists_only_with_text[OF p nd r] ca id u show ?thesis
    by (auto simp: r stored_messages_def)
qed

text \<open>
  C6 fails as stated: a provider that fails after a complete tool call and no text leaves
  the tool call in the accumulators, appends no assistant message and saves nothing (the
  store still holds the state without any message).
\<close>

theorem tool_calls_without_text_discarded:
  "(case send failing_provider [] ''hi'' session0 of
      (ys, a, s') \<Rightarrow>
        (ys, map tc_id (assistant_tool_calls a),
         map msg_role (st_messages (state s')), stored_messages (store s') ''s1''))
   = ([ToolStartEvent ''c1'' ''bash'' [], ToolDoneEvent ''c1'' ''bash'' ''a.txt'' None [],
       ErrorEvent ''boom''],
      [''c1''], [''user''], [])"
  by code_simp


section \<open>The CLI provider adapter: the input of a closed tool call\<close>

lemma user_blocks_inputs:
  "user_blocks str_of bs pt = (es, r) \<Longrightarrow> ToolDoneEvent c t outp e i \<in> set es \<Longrightarrow> i = []"
proof (induction bs arbitrary: pt es r)
  case Nil
  then show ?case by simp
next
  case (Cons b bs)
  from Cons.prems show ?case
    by (auto simp: bind_res_def Let_def dest: Cons.IH
        split: json.splits if_splits sum.splits option.splits prod.splits)
qed

lemma handle_line_inputs:
  "handle_line str_of ev st = (es, r) \<Longrightarrow> ToolDoneEvent c t outp e i \<in> set es \<Longrightarrow> i = []"
  by (auto simp: handle_line_def stream_event_def bind_res_def lift_def Let_def
      dest: user_blocks_inputs
      split: json.splits if_splits sum.splits option.splits prod.splits)

text \<open>No \<open>ToolDoneEvent\<close> of the adapter carries an input, whatever the lines are.\<close>

lemma cli_gen_inputs:
  "ToolDoneEvent c t outp e i \<in> set (cli_gen str_of ls st) \<Longrightarrow> i = []"
proof (induction ls arbitrary: st)
  case Nil
  then show ?case by simp
next
  case (Cons l ls)
  show ?case
  proof (cases l)
    case None
    with Cons show ?thesis by simp
  next
    case (Some ev)
    obtain es r where h: "handle_line str_of ev st = (es, r)" by (cases "handle_line str_of ev st")
    from Cons.prems Some h handle_line_inputs[OF h] Cons.IH show ?thesis
      by (cases r) auto
  qed
qed

text \<open>
  C2 on the lines \<open>tool_lines\<close>: the complete assistant message records the input
  \<open>{"command": "ls"}\<close> for the call \<open>t1\<close>, and the \<open>ToolDoneEvent\<close> that closes the call
  carries the empty input.
\<close>

theorem tool_done_carries_empty_input:
  "cli_run no_str tool_lines
   = [ToolStartEvent ''uuid-0'' ''bash'' [],
      ToolDoneEvent ''uuid-0'' ''bash'' ''a.txt'' None [],
      SessionIdEvent ''s1'', DoneEvent]"
  by code_simp

section \<open>The interaction registry: resolve\<close>

text \<open>
  C5, as the code has it. \<open>resolve_interaction\<close> leaves the registry as it is and raises
  nothing when the id is unknown; it deposits the value and raises nothing when the id is
  registered and its queue is empty; it raises \<open>QueueFull\<close> when the queue of the id
  already holds a value.
\<close>

theorem resolve_interaction_cases:
  "(map_of (pending_async w) rid = None \<longrightarrow> resolve_interaction rid v w = Inr w)
   \<and> (map_of (pending_async w) rid = Some [] \<longrightarrow>
        (\<exists>w'. resolve_interaction rid v w = Inr w'
              \<and> map_of (pending_async w') rid = Some [v]
              \<and> (\<forall>r. r \<noteq> rid \<longrightarrow> map_of (pending_async w') r = map_of (pending_async w) r)))
   \<and> (\<forall>q. map_of (pending_async w) rid = Some q \<and> q \<noteq> [] \<longrightarrow>
        resolve_interaction rid v w = Inl QueueFull)"
proof (intro conjI impI allI)
  assume "map_of (pending_async w) rid = None"
  then show "resolve_interaction rid v w = Inr w" by (simp add: resolve_interaction_def)
next
  assume a: "map_of (pending_async w) rid = Some []"
  let ?w' = "w\<lparr>pending_async := dict_set rid [v] (pending_async w)\<rparr>"
  from a have "resolve_interaction rid v w = Inr ?w'"
    by (simp add: resolve_interaction_def put_nowait_def)
  moreover have "map_of (pending_async ?w') rid = Some [v]" by (simp add: map_of_dict_set)
  moreover have "\<forall>r. r \<noteq> rid \<longrightarrow> map_of (pending_async ?w') r = map_of (pending_async w) r"
    by (simp add: map_of_dict_set_other)
  ultimately show "\<exists>w'. resolve_interaction rid v w = Inr w'
              \<and> map_of (pending_async w') rid = Some [v]
              \<and> (\<forall>r. r \<noteq> rid \<longrightarrow> map_of (pending_async w') r = map_of (pending_async w) r)"
    by blast
next
  fix q
  assume "map_of (pending_async w) rid = Some q \<and> q \<noteq> []"
  then show "resolve_interaction rid v w = Inl QueueFull"
    by (cases q) (simp_all add: resolve_interaction_def put_nowait_def)
qed

theorem resolve_interaction_cases_witness:
  "resolve_interaction ''nobody'' (JStr ''a'') (register_interaction ''r1'' world0)
     = Inr (register_interaction ''r1'' world0)
   \<and> (\<exists>w'. resolve_interaction ''r1'' (JStr ''a'') (register_interaction ''r1'' world0) = Inr w'
           \<and> map_of (pending_async w') ''r1'' = Some [JStr ''a''])"
proof -
  have n: "map_of (pending_async (register_interaction ''r1'' world0)) ''nobody'' = None"
    and e: "map_of (pending_async (register_interaction ''r1'' world0)) ''r1'' = Some []"
    by (simp_all add: register_interaction_def world0_def)
  from resolve_interaction_cases[of "register_interaction ''r1'' world0" "''nobody''" "JStr ''a''"]
    resolve_interaction_cases[of "register_interaction ''r1'' world0" "''r1''" "JStr ''a''"] n e
  show ?thesis by blast
qed

text \<open>
  C5 fails as stated: after \<open>register\<close> and a first \<open>resolve\<close>, a second \<open>resolve\<close> for the
  same id raises \<open>QueueFull\<close>.
\<close>

theorem second_resolve_raises:
  "resolve_interaction ''r1'' (JStr ''first'') (register_interaction ''r1'' world0)
     = Inr \<lparr>uuid_counter = 0, pending_async = [(''r1'', [JStr ''first''])]\<rparr>
   \<and> resolve_interaction ''r1'' (JStr ''second'')
        \<lparr>uuid_counter = 0, pending_async = [(''r1'', [JStr ''first''])]\<rparr>
     = Inl QueueFull"
  by (simp add: resolve_interaction_def register_interaction_def put_nowait_def world0_def)

section \<open>The tag parser on concrete streams\<close>

text \<open>
  C7 on the chunk \<open><ask-form></ask-form> then <ask>q</ask>\<close>: the form has no child, the
  parser treats it as a tag that is not complete yet and keeps the whole text in the
  buffer. Nothing is emitted for the chunk; the \<open><ask>\<close> after the form is never
  extracted, and at \<open>DoneEvent\<close> the whole buffer comes out as one text chunk.
\<close>

theorem empty_form_blocks_the_stream:
  "parse_interactions [TextChunkEvent ''<ask-form></ask-form> then <ask>q</ask>''] [] world0
     = ([], ''<ask-form></ask-form> then <ask>q</ask>'', [], world0)
   \<and> parse_interactions [TextChunkEvent ''<ask-form></ask-form> then <ask>q</ask>'',
                          TextChunkEvent '' and more'', DoneEvent] [] world0
     = ([TextChunkEvent ''<ask-form></ask-form> then <ask>q</ask> and more'', DoneEvent],
        ''<ask-form></ask-form> then <ask>q</ask> and more'', [], world0)"
  by code_simp

text \<open>
  C8. The single chunk \<open>hello <ask-f\<close>, with nothing after it, yields exactly the text
  chunk \<open>hello \<close>; the partial prefix \<open><ask-f\<close> stays in the buffer.
\<close>

theorem held_back_suffix:
  "parse_interactions [TextChunkEvent ''hello <ask-f''] [] w
     = ([TextChunkEvent ''hello ''], ''<ask-f'', [], w)"
  by code_simp

section \<open>The transport loop: a blank user message\<close>

lemma py_strip_only_space:
  assumes "\<forall>c\<in>set raw. py_isspace c"
  shows "py_strip raw = []"
proof -
  from assms have d: "dropWhile py_isspace raw = []" by (induction raw) auto
  show ?thesis unfolding py_strip_def d by simp
qed

text \<open>
  C10. A \<open>user_message\<close> whose content is empty or white space only (or is missing, the
  default being the empty string) leaves the state of the connection as it is: no task is
  created, the task in flight is not cancelled, \<open>stop_event\<close> is not touched.
\<close>

theorem blank_user_message_ignored:
  assumes "dict_get msg ''type'' JNull = Inr (JStr ''user_message'')"
    and "dict_get msg ''content'' (JStr []) = Inr (JStr raw)"
    and "\<forall>ch\<in>set raw. py_isspace ch"
  shows "handle_message msg c = Inr c"
  using assms by (simp add: handle_message_def py_strip_only_space)

theorem blank_user_message_ignored_witness:
  "handle_message (JObj [(''type'', JStr ''user_message''), (''content'', JStr '' '')]) busy_conn
     = Inr busy_conn
   \<and> in_flight busy_conn
   \<and> handle_message (JObj [(''type'', JStr ''user_message''), (''content'', JStr ''next'')]) busy_conn
     = Inr (busy_conn\<lparr>tasks := [(0, ''first question'', CancelRequested), (1, ''next'', Running)],
                      current_stream_task := Some 1\<rparr>)"
proof -
  have "handle_message (JObj [(''type'', JStr ''user_message''), (''content'', JStr '' '')]) busy_conn
          = Inr busy_conn"
    by (rule blank_user_message_ignored[where raw = "'' ''"])
       (simp_all add: dict_get_def get_or_def py_isspace_def)
  moreover have "in_flight busy_conn" by (simp add: in_flight_def busy_conn_def)
  moreover have
    "handle_message (JObj [(''type'', JStr ''user_message''), (''content'', JStr ''next'')]) busy_conn
       = Inr (busy_conn\<lparr>tasks := [(0, ''first question'', CancelRequested), (1, ''next'', Running)],
                        current_stream_task := Some 1\<rparr>)"
    by (simp add: handle_message_def dict_get_def get_or_def py_strip_def py_isspace_def
        in_flight_def busy_conn_def cancel_def create_task_def)
  ultimately show ?thesis by blast
qed


section \<open>The tag parser: chunk boundaries, flushes and the final Done\<close>

lemma not_both: "BARE_ASK_START s \<Longrightarrow> \<not> FORM_ASK_START s"
  by (auto simp: BARE_ASK_START_def FORM_ASK_START_def prefix_def py_isspace_def split: list.splits)

lemma bare_mono: "BARE_ASK_START s \<Longrightarrow> BARE_ASK_START (s @ t)"
  by (auto simp: BARE_ASK_START_def prefix_def split: list.splits)

lemma form_mono: "FORM_ASK_START s \<Longrightarrow> FORM_ASK_START (s @ t)"
  by (auto simp: FORM_ASK_START_def prefix_def split: list.splits)

lemma first_tag_pos_Nil: "first_tag_pos [] = None"
  by (simp add: first_tag_pos_def BARE_ASK_START_def FORM_ASK_START_def)

lemma first_tag_pos_Cons:
  "first_tag_pos (c # cs) =
     (if BARE_ASK_START (c # cs) then Some (0, Ask)
      else if FORM_ASK_START (c # cs) then Some (0, Form)
      else map_option (\<lambda>(p, k). (Suc p, k)) (first_tag_pos cs))"
  by (auto simp: first_tag_pos_def Let_def dest: not_both split: option.splits)

lemma bare_straddle:
  assumes "BARE_ASK_START (s @ t)" and "\<not> BARE_ASK_START s"
  shows "prefix s ''<ask''"
proof -
  from assms(1) have p: "prefix ''<ask'' (s @ t)" by (simp add: BARE_ASK_START_def)
  then consider "prefix ''<ask'' s" | us where "''<ask'' = s @ us"
    by (auto simp: prefix_append)
  then show ?thesis
  proof cases
    case 1
    then obtain r where s: "s = ''<ask'' @ r" by (auto simp: prefix_def)
    show ?thesis
    proof (cases r)
      case Nil
      with s show ?thesis by simp
    next
      case (Cons c r')
      with s assms show ?thesis by (simp add: BARE_ASK_START_def)
    qed
  next
    case 2
    then show ?thesis by (metis prefixI)
  qed
qed

lemma form_straddle:
  assumes "FORM_ASK_START (s @ t)" and "\<not> FORM_ASK_START s"
  shows "prefix s ''<ask-form''"
proof -
  from assms(1) have p: "prefix ''<ask-form'' (s @ t)" by (simp add: FORM_ASK_START_def)
  then consider "prefix ''<ask-form'' s" | us where "''<ask-form'' = s @ us"
    by (auto simp: prefix_append)
  then show ?thesis
  proof cases
    case 1
    then obtain r where s: "s = ''<ask-form'' @ r" by (auto simp: prefix_def)
    show ?thesis
    proof (cases r)
      case Nil
      with s show ?thesis by simp
    next
      case (Cons c r')
      with s assms show ?thesis by (simp add: FORM_ASK_START_def)
    qed
  next
    case 2
    then show ?thesis by (metis prefixI)
  qed
qed

lemma tag_straddle:
  assumes "tag_start (s @ t)" and "\<not> tag_start s"
  shows "prefix s ''<ask-form''"
proof -
  from assms consider "BARE_ASK_START (s @ t)" "\<not> BARE_ASK_START s"
    | "FORM_ASK_START (s @ t)" "\<not> FORM_ASK_START s"
    by (auto simp: tag_start_def)
  then show ?thesis
  proof cases
    case 1
    from bare_straddle[OF this] have "prefix s ''<ask''" .
    moreover have "prefix ''<ask'' ''<ask-form''" by simp
    ultimately show ?thesis by (rule prefix_order.trans)
  next
    case 2
    then show ?thesis by (rule form_straddle)
  qed
qed

lemma tag_start_hd: "tag_start s \<Longrightarrow> \<exists>r. s = CHR ''<'' # r"
  by (auto simp: tag_start_def BARE_ASK_START_def FORM_ASK_START_def prefix_def)

lemma first_tag_pos_None_iff: "first_tag_pos a = None \<longleftrightarrow> (\<forall>j. \<not> tag_start (drop j a))"
proof (induction a)
  case Nil
  then show ?case
    by (simp add: first_tag_pos_Nil tag_start_def BARE_ASK_START_def FORM_ASK_START_def)
next
  case (Cons c cs)
  show ?case
  proof
    assume n: "first_tag_pos (c # cs) = None"
    then have h: "\<not> tag_start (c # cs)" and t: "first_tag_pos cs = None"
      by (auto simp: first_tag_pos_Cons tag_start_def split: if_splits)
    show "\<forall>j. \<not> tag_start (drop j (c # cs))"
    proof
      fix j
      show "\<not> tag_start (drop j (c # cs))"
        using h t Cons.IH by (cases j) auto
    qed
  next
    assume a: "\<forall>j. \<not> tag_start (drop j (c # cs))"
    then have "\<not> tag_start (drop 0 (c # cs))" by blast
    then have h: "\<not> tag_start (c # cs)" by simp
    have "\<forall>j. \<not> tag_start (drop j cs)"
    proof
      fix j
      from a have "\<not> tag_start (drop (Suc j) (c # cs))" by blast
      then show "\<not> tag_start (drop j cs)" by simp
    qed
    with Cons.IH have "first_tag_pos cs = None" by simp
    with h show "first_tag_pos (c # cs) = None"
      by (simp add: first_tag_pos_Cons tag_start_def)
  qed
qed

lemma no_lt_no_tag: "CHR ''<'' \<notin> set cs \<Longrightarrow> first_tag_pos cs = None"
proof -
  assume a: "CHR ''<'' \<notin> set cs"
  have "\<forall>j. \<not> tag_start (drop j cs)"
  proof (intro allI notI)
    fix j assume "tag_start (drop j cs)"
    then obtain r where "drop j cs = CHR ''<'' # r" using tag_start_hd by blast
    then have "CHR ''<'' \<in> set (drop j cs)" by simp
    then have "CHR ''<'' \<in> set cs" by (rule in_set_dropD)
    with a show False by simp
  qed
  then show ?thesis by (simp add: first_tag_pos_None_iff)
qed

lemma prefix_tail_no_lt:
  assumes "prefix (c # cs) ''<ask-form''"
  shows "CHR ''<'' \<notin> set cs"
proof -
  from assms obtain r where "''<ask-form'' = (c # cs) @ r" by (auto simp: prefix_def)
  then have "''ask-form'' = cs @ r" by simp
  then have "set cs \<subseteq> set ''ask-form''" by (metis set_append Un_upper1)
  then show ?thesis by auto
qed

lemma first_tag_pos_append:
  "first_tag_pos a = Some (p, k) \<Longrightarrow> first_tag_pos (a @ b) = Some (p, k)"
proof (induction a arbitrary: p)
  case Nil
  then show ?case by (simp add: first_tag_pos_Nil)
next
  case (Cons c cs)
  show ?case
  proof (cases "tag_start (c # cs)")
    case True
    then show ?thesis
      using Cons.prems bare_mono[of "c # cs" b] form_mono[of "c # cs" b] not_both[of "c # cs @ b"]
      by (auto simp: first_tag_pos_Cons tag_start_def split: if_splits)
  next
    case False
    with Cons.prems obtain p' where p: "p = Suc p'" and t: "first_tag_pos cs = Some (p', k)"
      by (auto simp: first_tag_pos_Cons tag_start_def split: if_splits)
    have "\<not> tag_start ((c # cs) @ b)"
    proof
      assume "tag_start ((c # cs) @ b)"
      from tag_straddle[OF this False] have "prefix (c # cs) ''<ask-form''" .
      from no_lt_no_tag[OF prefix_tail_no_lt[OF this]] t show False by simp
    qed
    with Cons.IH[OF t] p show ?thesis
      by (simp add: first_tag_pos_Cons tag_start_def)
  qed
qed

lemma first_tag_pos_shift:
  assumes "\<forall>j < length safe. \<not> tag_start (drop j (safe @ y))"
  shows "first_tag_pos (safe @ y) = map_option (\<lambda>(p, k). (length safe + p, k)) (first_tag_pos y)"
  using assms
proof (induction safe)
  case Nil
  then show ?case by (simp add: option.map_ident case_prod_unfold)
next
  case (Cons c cs)
  from Cons.prems have "\<not> tag_start (drop 0 ((c # cs) @ y))" by blast
  then have h: "\<not> tag_start (c # cs @ y)" by simp
  have "\<forall>j < length cs. \<not> tag_start (drop j (cs @ y))"
  proof (intro allI impI)
    fix j assume "j < length cs"
    then have "Suc j < length (c # cs)" by simp
    with Cons.prems have "\<not> tag_start (drop (Suc j) ((c # cs) @ y))" by blast
    then show "\<not> tag_start (drop j (cs @ y))" by simp
  qed
  from Cons.IH[OF this] h show ?case
    by (cases "first_tag_pos y") (auto simp: first_tag_pos_Cons tag_start_def)
qed

lemma PP_iff: "q \<in> set POSSIBLE_PREFIXES \<longleftrightarrow> q \<noteq> [] \<and> prefix q ''<ask-form''"
proof
  assume "q \<in> set POSSIBLE_PREFIXES"
  then show "q \<noteq> [] \<and> prefix q ''<ask-form''"
    by (auto simp: POSSIBLE_PREFIXES_def)
next
  assume a: "q \<noteq> [] \<and> prefix q ''<ask-form''"
  then have "q \<in> set (prefixes ''<ask-form'')" by (simp only: in_set_prefixes)
  then have "q = [] \<or> q \<in> set POSSIBLE_PREFIXES"
    by (simp add: POSSIBLE_PREFIXES_def) blast
  with a show "q \<in> set POSSIBLE_PREFIXES" by simp
qed


lemma pas_loop_props:
  assumes "sorted_wrt (\<lambda>x y. length x \<ge> length y) ps" and "[] \<notin> set ps"
  shows "(partial_ask_suffix_loop ps buf = 0 \<longrightarrow> (\<forall>q\<in>set ps. \<not> suffix q buf))
       \<and> (partial_ask_suffix_loop ps buf > 0 \<longrightarrow>
            (\<exists>q\<in>set ps. suffix q buf \<and> length q = partial_ask_suffix_loop ps buf)
            \<and> (\<forall>q\<in>set ps. suffix q buf \<longrightarrow> length q \<le> partial_ask_suffix_loop ps buf))"
  using assms
proof (induction ps)
  case Nil
  then show ?case by simp
next
  case (Cons p ps)
  then show ?case by (cases "suffix p buf") auto
qed

lemma PP_sorted: "sorted_wrt (\<lambda>x y. length x \<ge> length y) POSSIBLE_PREFIXES" "[] \<notin> set POSSIBLE_PREFIXES"
  by (simp_all add: POSSIBLE_PREFIXES_def)

lemma pas_le: "partial_ask_suffix buf \<le> length buf"
proof (cases "partial_ask_suffix buf = 0")
  case True
  then show ?thesis by simp
next
  case False
  with pas_loop_props[OF PP_sorted, of buf] obtain q where "suffix q buf" "length q = partial_ask_suffix buf"
    by (auto simp: partial_ask_suffix_def)
  then show ?thesis by (metis suffix_length_le)
qed

lemma pas_max: "q \<in> set POSSIBLE_PREFIXES \<Longrightarrow> suffix q buf \<Longrightarrow> length q \<le> partial_ask_suffix buf"
  using pas_loop_props[OF PP_sorted, of buf]
  by (cases "partial_ask_suffix buf = 0") (auto simp: partial_ask_suffix_def)

lemma pas_witness:
  "partial_ask_suffix buf > 0 \<Longrightarrow> drop (length buf - partial_ask_suffix buf) buf \<in> set POSSIBLE_PREFIXES"
proof -
  assume "partial_ask_suffix buf > 0"
  with pas_loop_props[OF PP_sorted, of buf] obtain q where
    q: "q \<in> set POSSIBLE_PREFIXES" "suffix q buf" "length q = partial_ask_suffix buf"
    by (auto simp: partial_ask_suffix_def)
  from q(2) obtain z where "buf = z @ q" by (auto simp: suffix_def)
  with q show ?thesis by simp
qed

lemma pas_unique:
  assumes "k \<le> length x"
    and "k > 0 \<Longrightarrow> drop (length x - k) x \<in> set POSSIBLE_PREFIXES"
    and "\<And>q. q \<in> set POSSIBLE_PREFIXES \<Longrightarrow> suffix q x \<Longrightarrow> length q \<le> k"
  shows "partial_ask_suffix x = k"
proof (rule antisym)
  show "partial_ask_suffix x \<le> k"
  proof (cases "partial_ask_suffix x = 0")
    case True
    then show ?thesis by simp
  next
    case False
    then have "drop (length x - partial_ask_suffix x) x \<in> set POSSIBLE_PREFIXES"
      using pas_witness by simp
    from assms(3)[OF this suffix_drop] pas_le[of x] show ?thesis by simp
  qed
  show "k \<le> partial_ask_suffix x"
  proof (cases "k = 0")
    case True
    then show ?thesis by simp
  next
    case False
    with assms(2) have "drop (length x - k) x \<in> set POSSIBLE_PREFIXES" by simp
    from pas_max[OF this suffix_drop] assms(1) show ?thesis by simp
  qed
qed

lemma drop_tail_append: "n \<le> length y \<Longrightarrow> drop (length (x @ y) - n) (x @ y) = drop (length y - n) y"
proof -
  assume "n \<le> length y"
  then have "length (x @ y) - n = length x + (length y - n)" by simp
  then show ?thesis by (simp only: drop_append) simp
qed

lemma pas_append:
  "partial_ask_suffix (a @ b)
     = partial_ask_suffix (drop (length a - partial_ask_suffix a) a @ b)"
proof -
  let ?keep = "partial_ask_suffix a"
  let ?suf = "drop (length a - ?keep) a"
  let ?K = "partial_ask_suffix (?suf @ b)"
  have ls: "length ?suf = ?keep" using pas_le[of a] by simp
  have ab: "a @ b = take (length a - ?keep) a @ (?suf @ b)" by simp
  show ?thesis
  proof (rule pas_unique)
    show "?K \<le> length (a @ b)" using pas_le[of "?suf @ b"] by simp
  next
    assume "?K > 0"
    then have "drop (length (?suf @ b) - ?K) (?suf @ b) \<in> set POSSIBLE_PREFIXES"
      by (rule pas_witness)
    moreover have "drop (length (a @ b) - ?K) (a @ b) = drop (length (?suf @ b) - ?K) (?suf @ b)"
    proof -
      have "drop (length (take (length a - ?keep) a @ (?suf @ b)) - ?K)
              (take (length a - ?keep) a @ (?suf @ b))
              = drop (length (?suf @ b) - ?K) (?suf @ b)"
        by (rule drop_tail_append) (rule pas_le)
      then show ?thesis by (simp only: ab[symmetric])
    qed
    ultimately show "drop (length (a @ b) - ?K) (a @ b) \<in> set POSSIBLE_PREFIXES" by simp
  next
    fix q
    assume q: "q \<in> set POSSIBLE_PREFIXES" and s: "suffix q (a @ b)"
    from s consider "suffix q b" | q1 where "q = q1 @ b" "suffix q1 a"
      by (auto simp: suffix_append)
    then show "length q \<le> ?K"
    proof cases
      case 1
      then have "suffix q (?suf @ b)" by (simp add: suffix_appendI)
      from pas_max[OF q this] show ?thesis .
    next
      case 2
      show ?thesis
      proof (cases "q1 = []")
        case True
        with 2 have "suffix q (?suf @ b)" by (simp add: suffix_def)
        from pas_max[OF q this] show ?thesis .
      next
        case False
        from q have "prefix q ''<ask-form''" by (simp add: PP_iff)
        with 2(1) have "prefix q1 ''<ask-form''" by (auto dest: append_prefixD)
        with False have "q1 \<in> set POSSIBLE_PREFIXES" by (simp add: PP_iff)
        from pas_max[OF this 2(2)] have "length q1 \<le> ?keep" .
        then have "length q1 \<le> length ?suf" by (simp only: ls)
        with 2(2) have "suffix q1 ?suf"
          by (rule suffix_length_suffix[OF _ suffix_drop])
        with 2(1) have "suffix q (?suf @ b)" by (simp add: suffix_def) 
        from pas_max[OF q this] show ?thesis .
      qed
    qed
  qed
qed

lemma no_tag_before_kept:
  assumes "first_tag_pos a = None" and "j < length a - partial_ask_suffix a"
  shows "\<not> tag_start (drop j (a @ b))"
proof
  assume t: "tag_start (drop j (a @ b))"
  from assms(2) have jl: "j < length a" by simp
  then have d: "drop j (a @ b) = drop j a @ b" by simp
  from assms(1) have "\<not> tag_start (drop j a)" by (simp add: first_tag_pos_None_iff)
  with t d have "prefix (drop j a) ''<ask-form''" using tag_straddle[of "drop j a" b] by simp
  moreover from jl have "drop j a \<noteq> []" by simp
  ultimately have "drop j a \<in> set POSSIBLE_PREFIXES" by (simp add: PP_iff)
  from pas_max[OF this suffix_drop] have "length a - j \<le> partial_ask_suffix a" by simp
  with assms(2) show False by simp
qed

lemma re_search_SomeD: "re_search P s = Some i \<Longrightarrow> i \<le> length s \<and> P (drop i s)"
  by (induction s arbitrary: i) (auto split: if_splits)

lemma re_search_head: "P s \<Longrightarrow> re_search P s = Some 0"
  by (cases s) auto

lemma re_search_append:
  assumes "windowed N P"
  shows "re_search P a = Some p \<Longrightarrow> re_search P (a @ b) = Some p"
proof (induction a arbitrary: p)
  case Nil
  then have p0: "p = 0" and "P []" by (auto split: if_splits)
  with assms have "N = 0" by (auto simp: windowed_def)
  with assms \<open>P []\<close> have "P ([] @ b)" unfolding windowed_def by blast
  then show ?case using p0 by (simp add: re_search_head)
next
  case (Cons c cs)
  show ?case
  proof (cases "P (c # cs)")
    case True
    with assms have "N \<le> length (c # cs)" by (auto simp: windowed_def)
    with assms True have "P ((c # cs) @ b)" unfolding windowed_def by blast
    with True Cons.prems show ?thesis by simp
  next
    case False
    with Cons.prems obtain p' where p: "p = Suc p'" and r: "re_search P cs = Some p'" by auto
    from re_search_SomeD[OF r] have "P (drop p' cs)" by simp
    with assms have "N \<le> length (drop p' cs)" by (auto simp: windowed_def)
    then have "N \<le> length (c # cs)" by simp
    with assms False have "\<not> P ((c # cs) @ b)" unfolding windowed_def by blast
    with Cons.IH[OF r] p show ?thesis by simp
  qed
qed

lemma windowed_prefix: "windowed (length L) (prefix L)"
  unfolding windowed_def
proof (intro conjI allI impI)
  fix s assume "prefix L s" then show "length L \<le> length s" by (rule prefix_length_le)
next
  fix s t :: string assume l: "length L \<le> length s"
  show "prefix L (s @ t) = prefix L s"
  proof
    assume "prefix L (s @ t)"
    then have "L = take (length L) (s @ t)" by (metis append_eq_conv_conj prefix_def)
    with l have "L = take (length L) s" by simp
    then show "prefix L s" by (metis take_is_prefix)
  next
    assume "prefix L s" then show "prefix L (s @ t)" by (rule prefix_prefix)
  qed
qed

lemma windowed_bare: "windowed 5 BARE_ASK_START"
  unfolding windowed_def
proof (intro conjI allI impI)
  fix s assume "BARE_ASK_START s"
  then show "5 \<le> length s"
    by (auto simp: BARE_ASK_START_def prefix_def split: list.splits)
next
  fix s t :: string assume l: "5 \<le> length s"
  then have p: "prefix ''<ask'' (s @ t) = prefix ''<ask'' s"
    using windowed_prefix[of "''<ask''"] by (simp add: windowed_def)
  from l obtain c r where d: "drop 4 s = c # r" by (cases "drop 4 s") auto
  then have "drop 4 (s @ t) = c # r @ t" using l by simp
  with d p show "BARE_ASK_START (s @ t) = BARE_ASK_START s"
    by (simp add: BARE_ASK_START_def)
qed

lemma windowed_form: "windowed 10 FORM_ASK_START"
  unfolding windowed_def
proof (intro conjI allI impI)
  fix s assume "FORM_ASK_START s"
  then show "10 \<le> length s"
    by (auto simp: FORM_ASK_START_def prefix_def split: list.splits)
next
  fix s t :: string assume l: "10 \<le> length s"
  then have p: "prefix ''<ask-form'' (s @ t) = prefix ''<ask-form'' s"
    using windowed_prefix[of "''<ask-form''"] by (simp add: windowed_def)
  from l obtain c r where d: "drop 9 s = c # r" by (cases "drop 9 s") auto
  then have "drop 9 (s @ t) = c # r @ t" using l by simp
  with d p show "FORM_ASK_START (s @ t) = FORM_ASK_START s"
    by (simp add: FORM_ASK_START_def)
qed

lemma str_find_append:
  assumes "str_find L y pos = Some ce" and "pos \<le> length y"
  shows "str_find L (y @ b) pos = Some ce"
proof -
  from assms obtain i where i: "re_search (prefix L) (drop pos y) = Some i" and ce: "ce = pos + i"
    by (auto simp: str_find_def)
  from re_search_append[OF windowed_prefix i, of b] assms(2) ce show ?thesis
    by (simp add: str_find_def)
qed

lemma first_tag_pos_SomeD:
  assumes "first_tag_pos x = Some (p, k)"
  shows "re_search (if k = Form then FORM_ASK_START else BARE_ASK_START) x = Some p"
  using assms by (auto simp: first_tag_pos_def Let_def split: option.splits if_splits)

lemma extractor_append:
  assumes "extractor k y w = Some ((bt, ev, rid, rest), w')"
  shows "extractor k (y @ b) w = Some ((bt, ev, rid, rest @ b), w')"
proof (cases k)
  case Ask
  with assms have e: "try_extract_bare_ask y w = Some ((bt, ev, rid, rest), w')"
    by (simp add: extractor_def)
  then obtain pos ce where pos: "re_search BARE_ASK_START y = Some pos"
    and ce: "str_find ''</ask>'' y pos = Some ce"
    by (auto simp: try_extract_bare_ask_def split: option.splits)
  from re_search_SomeD[OF pos] have pl: "pos \<le> length y" by simp
  from str_find_bound[OF ce pl] have cl: "ce + 6 \<le> length y" by simp
  note a1 = re_search_append[OF windowed_bare pos, of b]
  note a2 = str_find_append[OF ce pl, of b]
  from e show ?thesis using cl pl
    by (auto simp: extractor_def Ask try_extract_bare_ask_def a1 a2 pos ce Let_def
        split: option.splits prod.splits)
next
  case Form
  with assms have e: "try_extract_ask_form y w = Some ((bt, ev, rid, rest), w')"
    by (simp add: extractor_def)
  then obtain pos ce oc where pos: "re_search FORM_ASK_START y = Some pos"
    and ce: "str_find ''</ask-form>'' y pos = Some ce"
    and oc: "str_find ''>'' y pos = Some oc" and lt: "oc < ce"
    by (auto simp: try_extract_ask_form_def split: option.splits if_splits)
  from re_search_SomeD[OF pos] have pl: "pos \<le> length y" by simp
  from str_find_bound[OF ce pl] have cl: "ce + 11 \<le> length y" by simp
  note a1 = re_search_append[OF windowed_form pos, of b]
  note a2 = str_find_append[OF ce pl, of b]
  note a3 = str_find_append[OF oc pl, of b]
  from e show ?thesis using cl pl lt
    by (auto simp: extractor_def Form try_extract_ask_form_def a1 a2 a3 pos ce oc Let_def
        split: option.splits prod.splits if_splits)
qed

lemma str_find_drop:
  "str_find L x p = map_option (\<lambda>i. p + i) (str_find L (drop p x) 0)"
  by (simp add: str_find_def option.map_comp comp_def)

lemma extractor_drop:
  assumes "first_tag_pos x = Some (p, k)"
  shows "extractor k x w =
           map_option (\<lambda>((bt, ev, rid, rest), w'). ((take p x @ bt, ev, rid, rest), w'))
             (extractor k (drop p x) w)"
proof (cases k)
  case Ask
  with first_tag_pos_SomeD[OF assms] have r: "re_search BARE_ASK_START x = Some p" by simp
  from re_search_SomeD[OF r] have "BARE_ASK_START (drop p x)" by simp
  then have r0: "re_search BARE_ASK_START (drop p x) = Some 0" by (rule re_search_head)
  show ?thesis
    by (auto simp: extractor_def Ask try_extract_bare_ask_def r r0 str_find_drop[of _ x p]
        drop_take Let_def add_ac
        split: option.splits prod.splits)
next
  case Form
  with first_tag_pos_SomeD[OF assms] have r: "re_search FORM_ASK_START x = Some p" by simp
  from re_search_SomeD[OF r] have "FORM_ASK_START (drop p x)" by simp
  then have r0: "re_search FORM_ASK_START (drop p x) = Some 0" by (rule re_search_head)
  show ?thesis
    by (auto simp: extractor_def Form try_extract_ask_form_def r r0 str_find_drop[of _ x p]
        drop_take Let_def add_ac
        split: option.splits prod.splits)
qed

lemma merge_text_text_event: "merge_text acc (text_event t @ X) = merge_text (acc @ t) X"
  by (simp add: text_event_def)

lemma merge_text_other: "\<not> is_text e \<Longrightarrow> merge_text acc (e # X) = text_event acc @ e # merge_text [] X"
  by (cases e) auto

lemma tag_pos_lt: "first_tag_pos buf = Some (fp, k) \<Longrightarrow> fp < length buf"
proof -
  assume a: "first_tag_pos buf = Some (fp, k)"
  from re_search_SomeD[OF first_tag_pos_SomeD[OF a]]
  have "fp \<le> length buf" and "drop fp buf \<noteq> []"
    by (auto simp: BARE_ASK_START_def FORM_ASK_START_def split: if_splits)
  then show ?thesis by simp
qed

lemma first_tag_pos_head:
  assumes "(if k = Form then FORM_ASK_START else BARE_ASK_START) y"
  shows "first_tag_pos y = Some (0, k)"
proof (cases y)
  case Nil
  with assms show ?thesis
    by (simp add: BARE_ASK_START_def FORM_ASK_START_def split: if_splits)
next
  case (Cons c cs)
  show ?thesis
  proof (cases k)
    case Ask
    with assms Cons show ?thesis by (simp add: first_tag_pos_Cons)
  next
    case Form
    with assms Cons not_both[of y] show ?thesis by (auto simp: first_tag_pos_Cons)
  qed
qed

lemma pb_None:
  "first_tag_pos buf = None \<Longrightarrow>
   process_buffer buf p w =
     (text_event (take (length buf - partial_ask_suffix buf) buf),
      drop (length buf - partial_ask_suffix buf) buf, p, w)"
  by (subst process_buffer.simps) (simp add: Let_def)

lemma pb_wait:
  assumes "first_tag_pos buf = Some (fp, k)" and "extractor k buf w = None"
  shows "process_buffer buf p w = (text_event (take fp buf), drop fp buf, p, w)"
  using assms tag_pos_lt[OF assms(1)]
  by (subst process_buffer.simps) (auto simp: text_event_def)

lemma pb_tag:
  assumes "first_tag_pos buf = Some (fp, k)"
    and "extractor k buf w = Some ((bt, ev, rid, rest), w')"
  shows "process_buffer buf p w =
           (text_event bt @ [ev] @ fst (process_buffer rest (p @ [rid]) w'),
            snd (process_buffer rest (p @ [rid]) w'))"
  using assms
  by (subst process_buffer.simps) (simp add: case_prod_unfold)

lemma extractor_event:
  assumes "extractor k buf w = Some ((bt, ev, rid, rest), w')"
  shows "\<not> is_text ev \<and> ev \<noteq> DoneEvent"
  using assms
  by (cases k)
     (auto simp: extractor_def try_extract_bare_ask_def try_extract_ask_form_def Let_def
       split: option.splits if_splits prod.splits)

lemma pb_shift:
  assumes i: "first_tag_pos (safe @ y) = map_option (\<lambda>(p, k). (length safe + p, k)) (first_tag_pos y)"
    and ii: "first_tag_pos y = None \<Longrightarrow> partial_ask_suffix (safe @ y) = partial_ask_suffix y"
  shows "snd (process_buffer (safe @ y) p w) = snd (process_buffer y p w)
         \<and> (\<forall>acc zs. merge_text acc (fst (process_buffer (safe @ y) p w) @ zs)
                       = merge_text (acc @ safe) (fst (process_buffer y p w) @ zs))"
proof (cases "first_tag_pos y")
  case None
  with i have n: "first_tag_pos (safe @ y) = None" by simp
  let ?K = "partial_ask_suffix y"
  have k: "partial_ask_suffix (safe @ y) = ?K" using ii None by simp
  have kl: "?K \<le> length y" by (rule pas_le)
  then have t: "take (length (safe @ y) - ?K) (safe @ y) = safe @ take (length y - ?K) y"
    and d: "drop (length (safe @ y) - ?K) (safe @ y) = drop (length y - ?K) y"
    by simp_all
  show ?thesis
    unfolding pb_None[OF None] pb_None[OF n] k t d
    by (simp add: merge_text_text_event)
next
  case (Some pk)
  obtain p' k where pk: "pk = (p', k)" by (cases pk)
  from i Some pk have s: "first_tag_pos (safe @ y) = Some (length safe + p', k)" by simp
  have y: "first_tag_pos y = Some (p', k)" using Some pk by simp
  from tag_pos_lt[OF y] have pl: "p' < length y" .
  have dr: "drop (length safe + p') (safe @ y) = drop p' y" by simp
  have tk: "take (length safe + p') (safe @ y) = safe @ take p' y" by simp
  note e1 = extractor_drop[OF s, of w, unfolded dr tk]
  note e2 = extractor_drop[OF y, of w]
  show ?thesis
  proof (cases "extractor k (drop p' y) w")
    case None
    with e1 e2 have n1: "extractor k (safe @ y) w = None" and n2: "extractor k y w = None"
      by simp_all
    show ?thesis
      unfolding pb_wait[OF s n1] pb_wait[OF y n2] dr tk
      by (simp add: merge_text_text_event)
  next
    case (Some r)
    obtain bt0 ev rid rest w' where r: "r = ((bt0, ev, rid, rest), w')"
      by (cases r) auto
    from Some r e1 e2
    have s1: "extractor k (safe @ y) w = Some (((safe @ take p' y) @ bt0, ev, rid, rest), w')"
      and s2: "extractor k y w = Some ((take p' y @ bt0, ev, rid, rest), w')"
      by simp_all
    show ?thesis
      unfolding pb_tag[OF s s1] pb_tag[OF y s2]
      by (simp add: merge_text_text_event)
  qed
qed

lemma two_steps_simple:
  assumes "process_buffer a p w = (text_event t, r, p, w)"
  shows "two_steps a b p w
         = (text_event t @ fst (process_buffer (r @ b) p w), snd (process_buffer (r @ b) p w))"
  by (simp add: two_steps_def assms case_prod_unfold)

lemma process_buffer_split:
  "snd (two_steps a b p w) = snd (process_buffer (a @ b) p w)
   \<and> (\<forall>acc zs. merge_text acc (fst (two_steps a b p w) @ zs)
                 = merge_text acc (fst (process_buffer (a @ b) p w) @ zs))"
proof (induction a p w rule: process_buffer.induct)
  case (1 buf pending w)
  show ?case
  proof (cases "first_tag_pos buf")
    case None
    let ?n = "length buf - partial_ask_suffix buf"
    let ?safe = "take ?n buf"
    let ?suf = "drop ?n buf"
    have sp: "?safe @ (?suf @ b) = buf @ b" by simp
    have "\<forall>j < length ?safe. \<not> tag_start (drop j (?safe @ (?suf @ b)))"
    proof (intro allI impI)
      fix j assume "j < length ?safe"
      then have "j < ?n" by simp
      from no_tag_before_kept[OF None this, of b] show "\<not> tag_start (drop j (?safe @ (?suf @ b)))"
        unfolding sp .
    qed
    from first_tag_pos_shift[OF this]
    have i: "first_tag_pos (?safe @ (?suf @ b))
               = map_option (\<lambda>(p, k). (length ?safe + p, k)) (first_tag_pos (?suf @ b))" .
    have ii: "partial_ask_suffix (?safe @ (?suf @ b)) = partial_ask_suffix (?suf @ b)"
      unfolding sp by (rule pas_append)
    note sh = pb_shift[OF i ii, of pending w, unfolded sp]
    show ?thesis
      unfolding two_steps_simple[OF pb_None[OF None]]
      using sh by (simp add: merge_text_text_event)
  next
    case (Some pk)
    obtain fp k where pk: "pk = (fp, k)" by (cases pk)
    with Some have f: "first_tag_pos buf = Some (fp, k)" by simp
    from first_tag_pos_append[OF f] have fa: "first_tag_pos (buf @ b) = Some (fp, k)" .
    from tag_pos_lt[OF f] have fl: "fp < length buf" .
    show ?thesis
    proof (cases "extractor k buf w")
      case None
      let ?safe = "take fp buf"
      let ?y = "drop fp buf @ b"
      have sp: "?safe @ ?y = buf @ b" by simp
      have ls: "length ?safe = fp" using fl by simp
      from re_search_SomeD[OF first_tag_pos_SomeD[OF f]]
      have "tag_start (drop fp buf)" by (auto simp: tag_start_def split: if_splits)
      then have ts: "tag_start ?y"
        using bare_mono form_mono by (auto simp: tag_start_def)
      have ky: "first_tag_pos ?y = Some (0, k)"
      proof -
        have "drop fp (buf @ b) = ?y" using fl by simp
        from re_search_SomeD[OF first_tag_pos_SomeD[OF fa]] this
        have "(if k = Form then FORM_ASK_START else BARE_ASK_START) ?y" by simp
        then show ?thesis by (rule first_tag_pos_head)
      qed
      have i: "first_tag_pos (?safe @ ?y) = map_option (\<lambda>(p, k). (length ?safe + p, k)) (first_tag_pos ?y)"
        unfolding sp using fa ky ls by simp
      have ii: "first_tag_pos ?y = None \<Longrightarrow> partial_ask_suffix (?safe @ ?y) = partial_ask_suffix ?y"
        using ky by simp
      note sh = pb_shift[OF i ii, of pending w, unfolded sp]
      show ?thesis
        unfolding two_steps_simple[OF pb_wait[OF f None]]
        using sh by (simp add: merge_text_text_event)
    next
      case (Some r)
      obtain bt ev rid rest w' where r: "r = ((bt, ev, rid, rest), w')" by (cases r) auto
      with Some have e: "extractor k buf w = Some ((bt, ev, rid, rest), w')" by simp
      from extractor_append[OF e] have ea: "extractor k (buf @ b) w = Some ((bt, ev, rid, rest @ b), w')" .
      note IH = "1.IH"[OF f refl e refl refl refl refl]
      have ts: "two_steps buf b pending w
                = (text_event bt @ [ev] @ fst (two_steps rest b (pending @ [rid]) w'),
                   snd (two_steps rest b (pending @ [rid]) w'))"
        by (simp add: two_steps_def pb_tag[OF f e] case_prod_unfold)
      from extractor_event[OF e] have nt: "\<not> is_text ev" by simp
      show ?thesis
        unfolding ts pb_tag[OF fa ea]
        using IH by (simp add: merge_text_text_event merge_text_other[OF nt])
    qed
  qed
qed

lemma request_ids_append: "request_ids (xs @ ys) = request_ids xs @ request_ids ys"
  by (induction xs rule: request_ids.induct) auto

lemma texts_append: "texts (xs @ ys) = texts xs @ texts ys"
  by (induction xs rule: texts.induct) auto

lemma text_event_facts:
  "request_ids (text_event t) = []" "texts (text_event t) = t"
  "DoneEvent \<notin> set (text_event t)" "TextChunkEvent [] \<notin> set (text_event t)"
  by (simp_all add: text_event_def)

lemma request_ids_plain: "\<not> is_interaction e \<Longrightarrow> request_ids (e # es) = request_ids es"
  by (cases e) auto

lemma texts_other: "\<not> is_text e \<Longrightarrow> texts (e # es) = texts es"
  by (cases e) auto

lemma extractor_request:
  assumes "extractor k buf w = Some ((bt, ev, rid, rest), w')"
  shows "request_ids [ev] = [rid]"
  using assms
  by (cases k)
     (auto simp: extractor_def try_extract_bare_ask_def try_extract_ask_form_def Let_def
       split: option.splits if_splits prod.splits)

lemma process_buffer_facts:
  "fst (snd (snd (process_buffer buf p w))) = p @ request_ids (fst (process_buffer buf p w))
   \<and> DoneEvent \<notin> set (fst (process_buffer buf p w))
   \<and> TextChunkEvent [] \<notin> set (fst (process_buffer buf p w))
   \<and> (request_ids (fst (process_buffer buf p w)) = [] \<longrightarrow>
        texts (fst (process_buffer buf p w)) @ fst (snd (process_buffer buf p w)) = buf)"
proof (induction buf p w rule: process_buffer.induct)
  case (1 buf pending w)
  show ?case
  proof (cases "first_tag_pos buf")
    case None
    show ?thesis unfolding pb_None[OF None] by (simp add: text_event_facts)
  next
    case (Some pk)
    obtain fp k where pk: "pk = (fp, k)" by (cases pk)
    with Some have f: "first_tag_pos buf = Some (fp, k)" by simp
    show ?thesis
    proof (cases "extractor k buf w")
      case None
      show ?thesis unfolding pb_wait[OF f None] by (simp add: text_event_facts)
    next
      case (Some r)
      obtain bt ev rid rest w' where r: "r = ((bt, ev, rid, rest), w')" by (cases r) auto
      with Some have e: "extractor k buf w = Some ((bt, ev, rid, rest), w')" by simp
      note IH = "1.IH"[OF f refl e refl refl refl refl]
      from extractor_request[OF e] have rq: "request_ids (ev # es) = rid # request_ids es" for es
        using request_ids_append[of "[ev]" es] by simp
      from extractor_event[OF e] have nt: "\<not> is_text ev" "ev \<noteq> DoneEvent" by simp_all
      then have ne: "ev \<noteq> TextChunkEvent []" by auto
      show ?thesis
        unfolding pb_tag[OF f e]
        using IH nt ne by (simp add: request_ids_append text_event_facts rq)
    qed
  qed
qed

lemma flush_safe_facts:
  "request_ids (fst (flush_safe buf)) = [] \<and> DoneEvent \<notin> set (fst (flush_safe buf))
   \<and> TextChunkEvent [] \<notin> set (fst (flush_safe buf))
   \<and> texts (fst (flush_safe buf)) @ snd (flush_safe buf) = buf"
proof (cases "first_tag_pos buf")
  case None
  then show ?thesis by (simp add: flush_safe_def Let_def text_event_def)
next
  case (Some pk)
  obtain fp k where pk: "pk = (fp, k)" by (cases pk)
  with Some have f: "first_tag_pos buf = Some (fp, k)" by simp
  from tag_pos_lt[OF f] f show ?thesis by (auto simp: flush_safe_def)
qed

lemma parse_loop_text:
  "parse_loop (TextChunkEvent c # inner) buf p w =
     (fst (process_buffer (buf @ c) p w)
        @ fst (parse_loop inner (fst (snd (process_buffer (buf @ c) p w)))
                 (fst (snd (snd (process_buffer (buf @ c) p w))))
                 (snd (snd (snd (process_buffer (buf @ c) p w))))),
      snd (parse_loop inner (fst (snd (process_buffer (buf @ c) p w)))
                 (fst (snd (snd (process_buffer (buf @ c) p w))))
                 (snd (snd (snd (process_buffer (buf @ c) p w))))))"
  by (simp add: case_prod_unfold)

lemma parse_loop_done:
  "parse_loop (DoneEvent # inner) buf p w =
     (fst (flush_safe buf) @ fst (process_buffer (snd (flush_safe buf)) p w)
        @ text_event (fst (snd (process_buffer (snd (flush_safe buf)) p w)))
        @ (if fst (snd (snd (process_buffer (snd (flush_safe buf)) p w))) \<noteq> [] then []
           else [DoneEvent]),
      snd (process_buffer (snd (flush_safe buf)) p w))"
  by (simp add: case_prod_unfold)

lemma parse_loop_other:
  "\<not> is_text e \<Longrightarrow> e \<noteq> DoneEvent \<Longrightarrow>
   parse_loop (e # inner) buf p w =
     (fst (flush_safe buf) @ [e] @ fst (parse_loop inner (snd (flush_safe buf)) p w),
      snd (parse_loop inner (snd (flush_safe buf)) p w))"
  by (cases e) (simp_all add: case_prod_unfold)

lemma parse_loop_nonempty:
  "TextChunkEvent [] \<notin> set (fst (parse_loop inner buf p w))"
proof (induction inner arbitrary: buf p w)
  case Nil
  then show ?case by simp
next
  case (Cons e inner)
  show ?case
  proof (cases "is_text e")
    case True
    then obtain c where e: "e = TextChunkEvent c" by (cases e) auto
    show ?thesis unfolding e parse_loop_text
      using process_buffer_facts[of "buf @ c" p w] Cons.IH by simp
  next
    case False
    show ?thesis
    proof (cases "e = DoneEvent")
      case True
      show ?thesis unfolding True parse_loop_done
        using flush_safe_facts[of buf] process_buffer_facts[of "snd (flush_safe buf)" p w]
        by (simp add: text_event_facts)
    next
      case d: False
      from False have "e \<noteq> TextChunkEvent []" by auto
      then show ?thesis unfolding parse_loop_other[OF False d]
        using flush_safe_facts[of buf] Cons.IH by simp
    qed
  qed
qed

text \<open>
  C9. No text chunk that \<open>parse_interactions\<close> yields is empty, whatever the events
  of the inner stream are: the text of the inner chunks passes through the buffer, and
  every flush point emits a chunk only for a non-empty text.
\<close>

theorem text_chunks_nonempty:
  "TextChunkEvent [] \<notin> set (fst (parse_interactions inner pending w))"
  unfolding parse_interactions_def by (rule parse_loop_nonempty)

text \<open>
  C3, as the code has it. For every string \<open>s\<close> (with an \<open><ask>\<close> tag or not), every
  offset \<open>k\<close> and every continuation \<open>rest\<close> of the stream, feeding \<open>s\<close> as the two
  chunks \<open>take k s\<close> and \<open>drop k s\<close> yields the same events as feeding it as one chunk,
  up to the cutting of the text into chunks: the two outputs agree once adjacent text
  chunks are merged (no chunk of either output is empty), and the parser ends in the
  same buffer, pending list and registry.
\<close>

theorem chunk_split_invariance:
  "coalesce (fst (parse_interactions
                    (TextChunkEvent (take k s) # TextChunkEvent (drop k s) # rest) pending w))
     = coalesce (fst (parse_interactions (TextChunkEvent s # rest) pending w))
   \<and> snd (parse_interactions
            (TextChunkEvent (take k s) # TextChunkEvent (drop k s) # rest) pending w)
     = snd (parse_interactions (TextChunkEvent s # rest) pending w)"
proof -
  let ?a = "take k s" and ?b = "drop k s"
  obtain e1 r1 p1 w1 where pa: "process_buffer ?a pending w = (e1, r1, p1, w1)"
    by (cases "process_buffer ?a pending w") auto
  obtain e2 r2 p2 w2 where pb: "process_buffer (r1 @ ?b) p1 w1 = (e2, r2, p2, w2)"
    by (cases "process_buffer (r1 @ ?b) p1 w1") auto
  have ts: "two_steps ?a ?b pending w = (e1 @ e2, r2, p2, w2)"
    by (simp add: two_steps_def pa pb)
  from process_buffer_split[of ?a ?b pending w]
  have st: "snd (process_buffer s pending w) = (r2, p2, w2)"
    and mt: "\<And>zs. merge_text [] ((e1 @ e2) @ zs) = merge_text [] (fst (process_buffer s pending w) @ zs)"
    by (simp_all add: ts)
  obtain e3 where pw: "process_buffer s pending w = (e3, r2, p2, w2)"
    using st by (cases "process_buffer s pending w") auto
  obtain out fin where pr: "parse_loop rest r2 p2 w2 = (out, fin)"
    by (cases "parse_loop rest r2 p2 w2") auto
  have l: "parse_interactions (TextChunkEvent ?a # TextChunkEvent ?b # rest) pending w
             = (e1 @ e2 @ out, fin)"
    by (simp add: parse_interactions_def pa pb pr)
  have r: "parse_interactions (TextChunkEvent s # rest) pending w = (e3 @ out, fin)"
    by (simp add: parse_interactions_def pw pr)
  from mt[of out] pw show ?thesis by (simp add: l r coalesce_def)
qed

lemma parse_loop_facts:
  assumes "DoneEvent \<notin> set evs" and "\<forall>e\<in>set evs. \<not> is_interaction e"
  shows "fst (snd (snd (parse_loop evs buf p w))) = p @ request_ids (fst (parse_loop evs buf p w))
         \<and> DoneEvent \<notin> set (fst (parse_loop evs buf p w))
         \<and> (request_ids (fst (parse_loop evs buf p w)) = [] \<longrightarrow>
              texts (fst (parse_loop evs buf p w)) @ fst (snd (parse_loop evs buf p w))
                = buf @ texts evs)"
  using assms
proof (induction evs arbitrary: buf p w)
  case Nil
  then show ?case by simp
next
  case (Cons e evs)
  from Cons.prems have nd: "DoneEvent \<notin> set evs" and ni: "\<forall>e\<in>set evs. \<not> is_interaction e"
    and ed: "e \<noteq> DoneEvent" and ei: "\<not> is_interaction e" by auto
  show ?case
  proof (cases "is_text e")
    case True
    then obtain c where e: "e = TextChunkEvent c" by (cases e) auto
    let ?r = "process_buffer (buf @ c) p w"
    note f = process_buffer_facts[of "buf @ c" p w]
    note IH = Cons.IH[OF nd ni, of "fst (snd ?r)" "fst (snd (snd ?r))" "snd (snd (snd ?r))"]
    show ?thesis unfolding e parse_loop_text
      using f IH by (auto simp: request_ids_append texts_append)
  next
    case False
    note f = flush_safe_facts[of buf]
    note IH = Cons.IH[OF nd ni, of "snd (flush_safe buf)" p w]
    show ?thesis unfolding parse_loop_other[OF False ed]
      using f IH ed by (auto simp: request_ids_append texts_append request_ids_plain[OF ei] texts_other[OF False])
  qed
qed

lemma parse_loop_append:
  assumes "DoneEvent \<notin> set evs"
  shows "parse_loop (evs @ rest) buf p w =
           (fst (parse_loop evs buf p w)
              @ fst (parse_loop rest (fst (snd (parse_loop evs buf p w)))
                       (fst (snd (snd (parse_loop evs buf p w))))
                       (snd (snd (snd (parse_loop evs buf p w))))),
            snd (parse_loop rest (fst (snd (parse_loop evs buf p w)))
                       (fst (snd (snd (parse_loop evs buf p w))))
                       (snd (snd (snd (parse_loop evs buf p w))))))"
  using assms
proof (induction evs arbitrary: buf p w)
  case Nil
  then show ?case by simp
next
  case (Cons e evs)
  from Cons.prems have nd: "DoneEvent \<notin> set evs" and ed: "e \<noteq> DoneEvent" by auto
  show ?case
  proof (cases "is_text e")
    case True
    then obtain c where e: "e = TextChunkEvent c" by (cases e) auto
    show ?thesis unfolding e append_Cons parse_loop_text
      by (simp add: Cons.IH[OF nd])
  next
    case False
    show ?thesis unfolding append_Cons parse_loop_other[OF False ed]
      by (simp add: Cons.IH[OF nd])
  qed
qed

text \<open>
  C4. Let the inner stream be \<open>evs\<close> (no \<open>DoneEvent\<close>, no interaction event of its own)
  followed by \<open>DoneEvent\<close>. The pending list at the end holds the ids of the interaction
  events the parser has emitted. If it is not empty, the output has no \<open>DoneEvent\<close>. If
  it is empty, the output ends with the \<open>DoneEvent\<close>, once, and the text chunks before it
  carry the whole text of \<open>evs\<close>: nothing is held back.
\<close>

theorem done_suppressed_iff_pending:
  assumes "DoneEvent \<notin> set evs" and "\<forall>e\<in>set evs. \<not> is_interaction e"
    and "parse_interactions (evs @ [DoneEvent]) [] w = (out, buf, pending, w')"
  shows "pending = request_ids out
         \<and> (pending \<noteq> [] \<longrightarrow> DoneEvent \<notin> set out)
         \<and> (pending = [] \<longrightarrow>
              (\<exists>pre. out = pre @ [DoneEvent] \<and> DoneEvent \<notin> set pre \<and> texts pre = texts evs))"
proof -
  let ?l = "parse_loop evs [] [] w"
  let ?b1 = "fst (snd ?l)" and ?p1 = "fst (snd (snd ?l))" and ?w1 = "snd (snd (snd ?l))"
  let ?fl = "flush_safe ?b1"
  let ?pb = "process_buffer (snd ?fl) ?p1 ?w1"
  let ?pre = "fst ?l @ fst ?fl @ fst ?pb @ text_event (fst (snd ?pb))"
  note lf = parse_loop_facts[OF assms(1,2), of "[]" "[]" w]
  note ff = flush_safe_facts[of ?b1]
  note pf = process_buffer_facts[of "snd ?fl" ?p1 ?w1]
  from assms(3) have o: "out = ?pre @ (if fst (snd (snd ?pb)) \<noteq> [] then [] else [DoneEvent])"
    and p: "pending = fst (snd (snd ?pb))"
    unfolding parse_interactions_def parse_loop_append[OF assms(1)] parse_loop_done
    by auto
  have rp: "request_ids ?pre = pending"
    using lf ff pf p by (simp add: request_ids_append text_event_facts)
  have dp: "DoneEvent \<notin> set ?pre"
    using lf ff pf by (simp add: text_event_facts)
  show ?thesis
  proof (cases "pending = []")
    case True
    with o p have out: "out = ?pre @ [DoneEvent]" by simp
    from True rp have z: "request_ids (fst ?l) = []" "request_ids (fst ?pb) = []"
      by (simp_all add: request_ids_append)
    have "texts ?pre = texts evs"
      using lf ff pf z by (simp add: texts_append text_event_facts)
    with out dp True rp show ?thesis by (auto simp: request_ids_append)
  next
    case False
    with o p have out: "out = ?pre" by simp
    with False rp dp show ?thesis by simp
  qed
qed


theorem done_suppressed_iff_pending_witness:
  "(case parse_interactions
           ([TextChunkEvent ''Pick one: <ask type=\"single_choice\" options=\"A|B\">Which?</ask>'']
            @ [DoneEvent]) [] world0 of
      (out, buf, pending, w') \<Rightarrow> pending = [''uuid-0''] \<and> DoneEvent \<notin> set out)
   \<and> (case parse_interactions ([TextChunkEvent ''hello <ask-f''] @ [DoneEvent]) [] world0 of
        (out, buf, pending, w') \<Rightarrow>
          pending = [] \<and> (\<exists>pre. out = pre @ [DoneEvent] \<and> texts pre = ''hello <ask-f''))"
proof -
  let ?ask = "[TextChunkEvent ''Pick one: <ask type=\"single_choice\" options=\"A|B\">Which?</ask>'']"
  let ?txt = "[TextChunkEvent ''hello <ask-f'']"
  obtain out buf pending w' where
    r: "parse_interactions (?ask @ [DoneEvent]) [] world0 = (out, buf, pending, w')"
    by (cases "parse_interactions (?ask @ [DoneEvent]) [] world0") auto
  have "fst (snd (snd (parse_interactions (?ask @ [DoneEvent]) [] world0))) = [''uuid-0'']"
    by code_simp
  with r have p: "pending = [''uuid-0'']" by simp
  have h: "DoneEvent \<notin> set ?ask" "\<forall>e\<in>set ?ask. \<not> is_interaction e" by simp_all
  from done_suppressed_iff_pending[OF h r] p have a: "DoneEvent \<notin> set out" by simp
  obtain out2 buf2 pending2 w2 where
    r2: "parse_interactions (?txt @ [DoneEvent]) [] world0 = (out2, buf2, pending2, w2)"
    by (cases "parse_interactions (?txt @ [DoneEvent]) [] world0") auto
  have "fst (snd (snd (parse_interactions (?txt @ [DoneEvent]) [] world0))) = []"
    by code_simp
  with r2 have p2: "pending2 = []" by simp
  have h2: "DoneEvent \<notin> set ?txt" "\<forall>e\<in>set ?txt. \<not> is_interaction e" by simp_all
  from done_suppressed_iff_pending[OF h2 r2] p2
  have b: "\<exists>pre. out2 = pre @ [DoneEvent] \<and> texts pre = ''hello <ask-f''" by auto
  from a b p p2 show ?thesis by (simp only: r r2 prod.case) simp
qed

text \<open>
  C3 fails as stated: the text \<open>Pick one: <ask ...>Which?</ask>\<close> fed whole gives one text
  chunk before the request, and split at offset 4 it gives two; the event sequences
  differ.
\<close>

theorem chunk_split_changes_text_chunks:
  "fst (parse_interactions
          [TextChunkEvent ''Pick one: <ask type=\"single_choice\" options=\"A|B\">Which?</ask>'',
           DoneEvent] [] world0)
     = [TextChunkEvent ''Pick one: '',
        InteractionRequestEvent ''uuid-0'' ''Which?'' ''single_choice'' [''A'', ''B'']]
   \<and> fst (parse_interactions
            [TextChunkEvent ''Pick'',
             TextChunkEvent '' one: <ask type=\"single_choice\" options=\"A|B\">Which?</ask>'',
             DoneEvent] [] world0)
     = [TextChunkEvent ''Pick'', TextChunkEvent '' one: '',
        InteractionRequestEvent ''uuid-0'' ''Which?'' ''single_choice'' [''A'', ''B'']]"
  by code_simp

end
